theory Spec2Isabelle
  imports Main
begin

section \<open>Values, rows and the storage collaborator\<close>

text \<open>
  Python strings are sequences of Unicode code points; the Hebrew test of
  \<^verbatim>\<open>translate_heb_words\<close> looks at code points, so a string value is a list of
  code points. Table and column names are ASCII and stay \<open>string\<close>; \<open>ustr\<close> turns one
  into a string value.
\<close>

type_synonym ustring = "nat list"

definition ustr :: "string \<Rightarrow> ustring" where
  "ustr s = map of_char s"

text \<open>
  The scalar values a cell can hold: \<open>VNone\<close> is Python's \<^verbatim>\<open>None\<close>, \<open>VNaN\<close> the
  float NaN, \<open>VInt\<close> a number, \<open>VStr\<close> a string, \<open>VDateTime day second\<close> a
  \<^verbatim>\<open>datetime\<close>/\<^verbatim>\<open>Timestamp\<close> and \<open>VDate day\<close> a \<^verbatim>\<open>datetime.date\<close>.
\<close>

datatype val = VNone | VNaN | VInt int | VStr ustring | VDateTime nat nat | VDate nat

text \<open>A \<^verbatim>\<open>dict\<close> (and a \<^verbatim>\<open>pd.Series\<close> row) keeps insertion order: an association list.\<close>

type_synonym row = "(string \<times> val) list"

fun dict_set :: "'k \<Rightarrow> 'v \<Rightarrow> ('k \<times> 'v) list \<Rightarrow> ('k \<times> 'v) list" where
  "dict_set k v [] = [(k, v)]"
| "dict_set k v (p # ps) = (if fst p = k then (k, v) # ps else p # dict_set k v ps)"

definition has_key :: "'k \<Rightarrow> ('k \<times> 'v) list \<Rightarrow> bool" where
  "has_key k d = (map_of d k \<noteq> None)"

text \<open>\<^verbatim>\<open>pd.isna\<close> / \<^verbatim>\<open>pd.notna\<close> on a scalar, and Python truthiness (\<^verbatim>\<open>not x\<close>).\<close>

fun isna :: "val \<Rightarrow> bool" where
  "isna VNone = True"
| "isna VNaN = True"
| "isna _ = False"

fun truthy :: "val \<Rightarrow> bool" where
  "truthy VNone = False"
| "truthy VNaN = True"
| "truthy (VInt n) = (n \<noteq> 0)"
| "truthy (VStr s) = (s \<noteq> [])"
| "truthy (VDateTime d s) = True"
| "truthy (VDate d) = True"

datatype error =
    MandatoryFieldMissing string
  | NotNullColumnIsMissing string
  | OriginalDataFieldIsMissing string
  | KeyError string
  | AttributeError
  | TypeError

record catalog_rule =
  table_name :: string
  column_name :: string
  target_table :: string
  target_column :: string
  concept_cd :: val
  modifier_cd :: val

record column_info =
  col_name :: string
  nullable :: bool

text \<open>
  What the controller reads from its collaborators and never changes: the inspected
  columns of every warehouse table, the stored dictionary and encounters tables (as the
  pairs of the two columns the controller reads), the remote translation service,
  \<^verbatim>\<open>json.dumps\<close>, Python's \<^verbatim>\<open>str\<close> of a value and of a dict (they shape the
  lines of the exceptions log) and the clock: \<^verbatim>\<open>datetime.now()\<close> as day and time of
  day, read as one value for the whole run.
\<close>

record env =
  db_columns :: "string \<Rightarrow> column_info list"
  db_dictionary :: "(val \<times> val) list"
  db_encounters :: "(val \<times> val) list"
  svc_translate :: "ustring \<Rightarrow> ustring"
  json_dumps :: "row \<Rightarrow> ustring"
  py_str :: "val \<Rightarrow> ustring"
  row_str :: "row \<Rightarrow> ustring"
  clock :: "nat \<times> nat"

definition now :: "env \<Rightarrow> val" where
  "now E = VDateTime (fst (clock E)) (snd (clock E))"

text \<open>
  The controller's mutable fields, together with the effects it has on the outside:
  the calls of \<^verbatim>\<open>save_new_row_to_dwh\<close> in order (\<open>saved\<close>), the texts sent to the
  translation service (\<open>translate_calls\<close>) and the dated exceptions logs, each by its
  day with the number of lines it holds (\<open>log_files\<close>). The progress reporter only
  counts rows and is not read by the controller.
\<close>

record state =
  dwh_dictionary :: "(val \<times> val) list option"
  encounters :: "(val \<times> val) list option"
  current_org_table_name :: string
  current_dwh_table_name :: string
  batch_que :: "(string \<times> row list) list"
  saved :: "(string \<times> row list) list"
  translate_calls :: "ustring list"
  log_files :: "(nat \<times> nat) list"

definition get_columns :: "env \<Rightarrow> string \<Rightarrow> string list" where
  "get_columns E t = map col_name (db_columns E t)"

definition get_not_null_columns :: "env \<Rightarrow> string \<Rightarrow> string list" where
  "get_not_null_columns E t = map col_name (filter (\<lambda>c. \<not> nullable c) (db_columns E t))"

section \<open>Batch writer\<close>

definition que_limit :: nat where
  "que_limit = 100"

fun fill_missing :: "string list \<Rightarrow> row \<Rightarrow> row" where
  "fill_missing [] r = r"
| "fill_missing (c # cs) r = fill_missing cs (if has_key c r then r else dict_set c VNone r)"

definition add_row_to_batch :: "env \<Rightarrow> state \<Rightarrow> row \<Rightarrow> string \<Rightarrow> state" where
  "add_row_to_batch E st new_row tbl =
     (let filled = fill_missing (get_columns E tbl) new_row;
          q = (case map_of (batch_que st) tbl of None \<Rightarrow> [filled] | Some q0 \<Rightarrow> q0 @ [filled])
      in if que_limit \<le> length q
         then st\<lparr>batch_que := dict_set tbl [] (batch_que st), saved := saved st @ [(tbl, q)]\<rparr>
         else st\<lparr>batch_que := dict_set tbl q (batch_que st)\<rparr>)"

definition save_all_rows_in_que :: "state \<Rightarrow> state" where
  "save_all_rows_in_que st =
     st\<lparr>saved := saved st @ filter (\<lambda>tq. 0 < length (snd tq)) (batch_que st)\<rparr>"

section \<open>Validator and exception recorder\<close>

fun validate_cols :: "string list \<Rightarrow> row \<Rightarrow> error + unit" where
  "validate_cols [] r = Inr ()"
| "validate_cols (c # cs) r =
     (case map_of r c of
        None \<Rightarrow> Inl (NotNullColumnIsMissing c)
      | Some v \<Rightarrow> if \<not> truthy v then Inl (NotNullColumnIsMissing c) else validate_cols cs r)"

definition validate_row :: "env \<Rightarrow> state \<Rightarrow> row \<Rightarrow> error + unit" where
  "validate_row E st new_row =
     validate_cols (get_not_null_columns E (current_dwh_table_name st)) new_row"

text \<open>
  \<^verbatim>\<open>write_to_log_file\<close> opens the log named by today's date, counts its lines, and
  appends the message behind the index "count + 1". Reading splits lines at \<open>\n\<close>,
  \<open>\r\<close> and \<open>\r\n\<close>, so a message adds one line for each line break in it: the
  closing one, and one for every break inside a table name, a column name or a value.
\<close>

fun line_breaks :: "ustring \<Rightarrow> nat" where
  "line_breaks [] = 0"
| "line_breaks [c] = (if c = 10 \<or> c = 13 then 1 else 0)"
| "line_breaks (c # c' # cs) =
     (if c = 13 \<and> c' = 10 then 1 + line_breaks cs
      else if c = 10 \<or> c = 13 then 1 + line_breaks (c' # cs)
      else line_breaks (c' # cs))"

definition log_file_lines :: "env \<Rightarrow> state \<Rightarrow> nat" where
  "log_file_lines E st =
     (case map_of (log_files st) (fst (clock E)) of None \<Rightarrow> 0 | Some n \<Rightarrow> n)"

definition write_to_log_file :: "env \<Rightarrow> state \<Rightarrow> ustring \<Rightarrow> state \<times> nat" where
  "write_to_log_file E st error_message =
     (let row_index = log_file_lines E st + 1
      in (st\<lparr>log_files := dict_set (fst (clock E))
                              (log_file_lines E st + line_breaks error_message)
                              (log_files st)\<rparr>,
          row_index))"

fun join_strs :: "ustring \<Rightarrow> ustring list \<Rightarrow> ustring" where
  "join_strs sep [] = []"
| "join_strs sep [x] = x"
| "join_strs sep (x # y # xs) = x @ sep @ join_strs sep (y # xs)"

definition org_row_string :: "env \<Rightarrow> row \<Rightarrow> ustring" where
  "org_row_string E org_row =
     join_strs (ustr '', '') (map (\<lambda>cv. ustr (fst cv) @ ustr '': '' @ py_str E (snd cv)) org_row)"

definition missing_message :: "env \<Rightarrow> state \<Rightarrow> string \<Rightarrow> string \<Rightarrow> row \<Rightarrow> ustring" where
  "missing_message E st field_type org_col org_row =
     ustr ''For '' @ [39] @ ustr (current_dwh_table_name st) @ [39] @ ustr '', the '' @
     ustr field_type @ ustr '' '' @ [39] @ ustr org_col @ [39] @
     ustr '' is missing in: Table: '' @ [39] @ ustr (current_org_table_name st) @ [39] @
     ustr '' Original row: ('' @ org_row_string E org_row @ ustr '')'' @ [10]"

definition validation_message :: "env \<Rightarrow> state \<Rightarrow> string \<Rightarrow> row \<Rightarrow> ustring" where
  "validation_message E st target_col new_row =
     ustr ''Validation failed for '' @ [39] @ ustr (current_dwh_table_name st) @ [39] @
     ustr '', '' @ [39] @ ustr target_col @ [39] @ ustr '' is missing: '' @
     row_str E new_row @ [10]"

definition exception_row :: "env \<Rightarrow> state \<Rightarrow> nat \<Rightarrow> val \<Rightarrow> val \<Rightarrow> row \<Rightarrow> row" where
  "exception_row E st log_file_id target_col org_col new_row =
     [(''log_file_id'', VInt (int log_file_id)),
      (''target_table'', VStr (ustr (current_dwh_table_name st))),
      (''org_table'', VStr (ustr (current_org_table_name st))),
      (''target_col'', target_col),
      (''org_col'', org_col),
      (''row_json'', VStr (json_dumps E new_row))]"

fun handle_exception :: "env \<Rightarrow> state \<Rightarrow> row \<Rightarrow> row \<Rightarrow> error \<Rightarrow> state" where
  "handle_exception E st org_row new_row (MandatoryFieldMissing c) =
     (let (st1, i) = write_to_log_file E st (missing_message E st ''mandatory field'' c org_row)
      in add_row_to_batch E st1 (exception_row E st1 i VNone (VStr (ustr c)) new_row) ''exceptions'')"
| "handle_exception E st org_row new_row (OriginalDataFieldIsMissing c) =
     (let (st1, i) = write_to_log_file E st (missing_message E st ''field'' c org_row)
      in add_row_to_batch E st1 (exception_row E st1 i VNone (VStr (ustr c)) new_row) ''exceptions'')"
| "handle_exception E st org_row new_row (NotNullColumnIsMissing c) =
     (let (st1, i) = write_to_log_file E st (validation_message E st c new_row)
      in add_row_to_batch E st1 (exception_row E st1 i (VStr (ustr c)) VNone new_row) ''exceptions'')"
| "handle_exception E st org_row new_row _ = st"

section \<open>Rule evaluator\<close>

definition is_mandatory_rule :: "catalog_rule \<Rightarrow> bool" where
  "is_mandatory_rule r = (isna (concept_cd r) \<and> isna (modifier_cd r))"

fun mandatory_loop :: "catalog_rule list \<Rightarrow> row \<Rightarrow> row \<Rightarrow> error + row" where
  "mandatory_loop [] org_row mc = Inr mc"
| "mandatory_loop (r # rs) org_row mc =
     (case map_of org_row (column_name r) of
        None \<Rightarrow> Inl (KeyError (column_name r))
      | Some v \<Rightarrow>
          if \<not> isna v then mandatory_loop rs org_row (dict_set (target_column r) v mc)
          else Inl (MandatoryFieldMissing (column_name r)))"

definition get_mandatory_cols :: "env \<Rightarrow> catalog_rule list \<Rightarrow> row \<Rightarrow> error + row" where
  "get_mandatory_cols E org_dwh_tbl_cat org_row =
     mandatory_loop (filter is_mandatory_rule org_dwh_tbl_cat) org_row
       [(''update_date'', now E),
        (''download_date'', now E),
        (''import_date'', now E),
        (''sourcesystem_cd'', VStr (ustr ''reuma_v2'')),
        (''upload_id'', VInt 1)]"

section \<open>Translation cache\<close>

definition is_hebrew_char :: "nat \<Rightarrow> bool" where
  "is_hebrew_char c = (1488 \<le> c \<and> c \<le> 1514)"

definition contains_hebrew :: "ustring \<Rightarrow> bool" where
  "contains_hebrew s = list_ex is_hebrew_char s"

fun is_hebrew_val :: "val \<Rightarrow> bool" where
  "is_hebrew_val (VStr s) = contains_hebrew s"
| "is_hebrew_val _ = False"

definition loaded_dictionary :: "env \<Rightarrow> state \<Rightarrow> (val \<times> val) list" where
  "loaded_dictionary E st = (case dwh_dictionary st of None \<Rightarrow> db_dictionary E | Some d \<Rightarrow> d)"

text \<open>The body of the loop of \<^verbatim>\<open>translate_heb_words\<close> for one Hebrew value.\<close>

definition translate_word :: "env \<Rightarrow> state \<Rightarrow> ustring \<Rightarrow> state \<times> val" where
  "translate_word E st heb_word =
     (let dictionary = loaded_dictionary E st;
          st1 = st\<lparr>dwh_dictionary := Some dictionary\<rparr>
      in case map_of dictionary (VStr heb_word) of
           Some english_translation \<Rightarrow> (st1, english_translation)
         | None \<Rightarrow>
             (let english_translation = VStr (svc_translate E heb_word);
                  st2 = st1\<lparr>translate_calls := translate_calls st1 @ [heb_word]\<rparr>;
                  st3 = add_row_to_batch E st2
                          [(''he'', VStr heb_word), (''en'', english_translation)] ''dictionary'';
                  st4 = st3\<lparr>dwh_dictionary := Some (dictionary @ [(VStr heb_word, english_translation)])\<rparr>
              in (st4, english_translation)))"

fun translate_items :: "env \<Rightarrow> state \<Rightarrow> row \<Rightarrow> row \<Rightarrow> state \<times> row" where
  "translate_items E st [] translated_row = (st, translated_row)"
| "translate_items E st ((k, v) # items) translated_row =
     (case v of
        VStr s \<Rightarrow>
          if contains_hebrew s
          then (let (st1, en) = translate_word E st s
                in translate_items E st1 items (dict_set k en translated_row))
          else translate_items E st items (dict_set k v translated_row)
      | _ \<Rightarrow> translate_items E st items (dict_set k v translated_row))"

definition translate_heb_words :: "env \<Rightarrow> state \<Rightarrow> row \<Rightarrow> state \<times> row" where
  "translate_heb_words E st r = translate_items E st r []"

section \<open>Encounter registrar\<close>

text \<open>
  \<^verbatim>\<open>Series.max()\<close> skips missing values and is NaN on a column with no value left;
  NaN + 1 is NaN. A column holding anything but numbers cannot be incremented.
\<close>

fun int_vals :: "val list \<Rightarrow> int list option" where
  "int_vals [] = Some []"
| "int_vals (VInt n # vs) = map_option ((#) n) (int_vals vs)"
| "int_vals (v # vs) = (if isna v then int_vals vs else None)"

definition series_max_plus_one :: "val list \<Rightarrow> error + val" where
  "series_max_plus_one vs =
     (case int_vals vs of
        None \<Rightarrow> Inl TypeError
      | Some [] \<Rightarrow> Inr VNaN
      | Some (n # ns) \<Rightarrow> Inr (VInt (fold max ns n + 1)))"

fun date_of :: "val \<Rightarrow> nat option" where
  "date_of (VDateTime d s) = Some d"
| "date_of _ = None"

definition loaded_encounters :: "env \<Rightarrow> state \<Rightarrow> (val \<times> val) list" where
  "loaded_encounters E st = (case encounters st of None \<Rightarrow> db_encounters E | Some e \<Rightarrow> e)"

definition add_encounter_num :: "env \<Rightarrow> state \<Rightarrow> row \<Rightarrow> error + state \<times> row" where
  "add_encounter_num E st mandatory_cols =
     (let encs = loaded_encounters E st;
          st1 = st\<lparr>encounters := Some encs\<rparr>
      in case map_of mandatory_cols ''start_date'' of
           None \<Rightarrow> Inl (KeyError ''start_date'')
         | Some sd \<Rightarrow>
            (case date_of sd of
               None \<Rightarrow> Inl AttributeError
             | Some d \<Rightarrow>
                (case map_of encs (VDate d) of
                   Some encounter_num \<Rightarrow>
                     Inr (st1, dict_set ''encounter_num'' encounter_num mandatory_cols)
                 | None \<Rightarrow>
                    (case series_max_plus_one (map snd encs) of
                       Inl e \<Rightarrow> Inl e
                     | Inr encounter_num \<Rightarrow>
                        (let st2 = add_row_to_batch E st1
                                     [(''date'', VDate d), (''encounter_num'', encounter_num)]
                                     ''encounters'';
                             st3 = st2\<lparr>encounters := Some (encs @ [(VDate d, encounter_num)])\<rparr>
                         in Inr (st3, dict_set ''encounter_num'' encounter_num mandatory_cols))))))"

section \<open>Table-specific transformers\<close>

definition validate_and_enqueue :: "env \<Rightarrow> state \<Rightarrow> row \<Rightarrow> row \<Rightarrow> state" where
  "validate_and_enqueue E st org_row new_row =
     (case validate_row E st new_row of
        Inl e \<Rightarrow> handle_exception E st org_row new_row e
      | Inr _ \<Rightarrow> add_row_to_batch E st new_row (current_dwh_table_name st))"

definition concept_dimension_process :: "env \<Rightarrow> state \<Rightarrow> row \<Rightarrow> row \<Rightarrow> state" where
  "concept_dimension_process E st mandatory_cols org_row =
     (let mc1 = (case map_of mandatory_cols ''concept_desc'' of
                   Some v \<Rightarrow> dict_set ''name_char'' v mandatory_cols
                 | None \<Rightarrow> mandatory_cols);
          (st1, mc2) = translate_heb_words E st mc1
      in validate_and_enqueue E st1 org_row mc2)"

fun merge_no_modifier :: "catalog_rule list \<Rightarrow> row \<Rightarrow> row \<Rightarrow> error + row" where
  "merge_no_modifier [] org_row mc = Inr mc"
| "merge_no_modifier (r # rs) org_row mc =
     (case map_of org_row (column_name r) of
        None \<Rightarrow> Inl (KeyError (column_name r))
      | Some v \<Rightarrow>
          merge_no_modifier rs org_row (if \<not> isna v then dict_set (target_column r) v mc else mc))"

definition no_modifier_marker :: val where
  "no_modifier_marker = VStr (ustr ''@'')"

definition patient_dimension_process ::
    "env \<Rightarrow> state \<Rightarrow> row \<Rightarrow> row \<Rightarrow> catalog_rule list \<Rightarrow> error + state" where
  "patient_dimension_process E st mandatory_cols org_row org_dwh_tbl_cat =
     (case merge_no_modifier (filter (\<lambda>r. modifier_cd r = no_modifier_marker) org_dwh_tbl_cat)
             org_row mandatory_cols of
        Inl e \<Rightarrow> Inl e
      | Inr mc1 \<Rightarrow>
          (let (st1, mc2) = translate_heb_words E st mc1
           in Inr (validate_and_enqueue E st1 org_row mc2)))"

definition observation_row :: "row \<Rightarrow> catalog_rule \<Rightarrow> val \<Rightarrow> row" where
  "observation_row mandatory_cols r v =
     (let r1 = dict_set (target_column r) v mandatory_cols;
          r2 = dict_set ''concept_cd'' (concept_cd r) r1;
          r3 = dict_set ''modifier_cd'' (modifier_cd r) r2
      in if has_key ''tval_char'' r3 then dict_set ''valtype_cd'' (VStr (ustr ''t'')) r3
         else if has_key ''nval_num'' r3 then dict_set ''valtype_cd'' (VStr (ustr ''n'')) r3
         else r3)"

definition process_row_by_observation_fact_rules ::
    "env \<Rightarrow> state \<Rightarrow> row \<Rightarrow> row \<Rightarrow> catalog_rule \<Rightarrow> error + state" where
  "process_row_by_observation_fact_rules E st mandatory_cols org_row r =
     (case map_of org_row (column_name r) of
        None \<Rightarrow> Inl (KeyError (column_name r))
      | Some v \<Rightarrow>
          if isna v
          then Inr (handle_exception E st org_row mandatory_cols
                      (OriginalDataFieldIsMissing (column_name r)))
          else (let (st1, new_row) = translate_heb_words E st (observation_row mandatory_cols r v)
                in Inr (validate_and_enqueue E st1 org_row new_row)))"

fun process_rules :: "env \<Rightarrow> state \<Rightarrow> row \<Rightarrow> row \<Rightarrow> catalog_rule list \<Rightarrow> error + state" where
  "process_rules E st mandatory_cols org_row [] = Inr st"
| "process_rules E st mandatory_cols org_row (r # rs) =
     (case process_row_by_observation_fact_rules E st mandatory_cols org_row r of
        Inl e \<Rightarrow> Inl e
      | Inr st1 \<Rightarrow> process_rules E st1 mandatory_cols org_row rs)"

definition no_modifier_rows :: "catalog_rule list \<Rightarrow> catalog_rule list" where
  "no_modifier_rows cat = filter (\<lambda>r. modifier_cd r = no_modifier_marker) cat"

definition modifier_rows :: "catalog_rule list \<Rightarrow> catalog_rule list" where
  "modifier_rows cat =
     filter (\<lambda>r. \<not> isna (modifier_cd r) \<and> modifier_cd r \<noteq> no_modifier_marker) cat"

definition observation_fact_process ::
    "env \<Rightarrow> state \<Rightarrow> row \<Rightarrow> row \<Rightarrow> catalog_rule list \<Rightarrow> error + state" where
  "observation_fact_process E st mandatory_cols org_row org_dwh_tbl_cat =
     (case add_encounter_num E st mandatory_cols of
        Inl e \<Rightarrow> Inl e
      | Inr (st1, mc1) \<Rightarrow>
          (case process_rules E st1 mc1 org_row (no_modifier_rows org_dwh_tbl_cat) of
             Inl e \<Rightarrow> Inl e
           | Inr st2 \<Rightarrow> process_rules E st2 mc1 org_row (modifier_rows org_dwh_tbl_cat)))"

section \<open>Orchestrator\<close>

text \<open>\<^verbatim>\<open>Series.unique()\<close>: the distinct values in order of first appearance.\<close>

fun unique_acc :: "'a list \<Rightarrow> 'a list \<Rightarrow> 'a list" where
  "unique_acc seen [] = seen"
| "unique_acc seen (x # xs) = unique_acc (if x \<in> set seen then seen else seen @ [x]) xs"

definition dispatch_table ::
    "env \<Rightarrow> state \<Rightarrow> row \<Rightarrow> row \<Rightarrow> catalog_rule list \<Rightarrow> error + state" where
  "dispatch_table E st mandatory_cols org_row org_dwh_tbl_cat =
     (if current_dwh_table_name st = ''concept_dimension''
      then Inr (concept_dimension_process E st mandatory_cols org_row)
      else if current_dwh_table_name st = ''patient_dimension''
      then patient_dimension_process E st mandatory_cols org_row org_dwh_tbl_cat
      else if current_dwh_table_name st = ''observation_fact''
      then observation_fact_process E st mandatory_cols org_row org_dwh_tbl_cat
      else Inr st)"

fun process_dwh_tables ::
    "env \<Rightarrow> state \<Rightarrow> row \<Rightarrow> catalog_rule list \<Rightarrow> string list \<Rightarrow> error + state" where
  "process_dwh_tables E st org_row org_table_catalog [] = Inr st"
| "process_dwh_tables E st org_row org_table_catalog (t # ts) =
     (let st1 = st\<lparr>current_dwh_table_name := t\<rparr>;
          org_dwh_tbl_cat = filter (\<lambda>r. target_table r = t) org_table_catalog
      in case get_mandatory_cols E org_dwh_tbl_cat org_row of
           Inl (MandatoryFieldMissing c) \<Rightarrow>
             process_dwh_tables E
               (handle_exception E st1 org_row [] (MandatoryFieldMissing c))
               org_row org_table_catalog ts
         | Inl e \<Rightarrow> Inl e
         | Inr mandatory_cols \<Rightarrow>
             (case dispatch_table E st1 mandatory_cols org_row org_dwh_tbl_cat of
                Inl e \<Rightarrow> Inl e
              | Inr st2 \<Rightarrow> process_dwh_tables E st2 org_row org_table_catalog ts))"

definition process_org_row_into_dwh ::
    "env \<Rightarrow> catalog_rule list \<Rightarrow> state \<Rightarrow> row \<Rightarrow> error + state" where
  "process_org_row_into_dwh E data_catalog st org_row =
     (let org_table_catalog = filter (\<lambda>r. table_name r = current_org_table_name st) data_catalog
      in process_dwh_tables E st org_row org_table_catalog
           (unique_acc [] (map target_table org_table_catalog)))"

fun process_org_rows ::
    "env \<Rightarrow> catalog_rule list \<Rightarrow> state \<Rightarrow> row list \<Rightarrow> error + state" where
  "process_org_rows E data_catalog st [] = Inr st"
| "process_org_rows E data_catalog st (org_row # rows) =
     (case process_org_row_into_dwh E data_catalog st org_row of
        Inl e \<Rightarrow> Inl e
      | Inr st1 \<Rightarrow> process_org_rows E data_catalog st1 rows)"

fun process_org_tables ::
    "env \<Rightarrow> catalog_rule list \<Rightarrow> state \<Rightarrow> (string \<times> row list) list \<Rightarrow> error + state" where
  "process_org_tables E data_catalog st [] = Inr st"
| "process_org_tables E data_catalog st ((org_table_name, org_table) # tables) =
     (case process_org_rows E data_catalog
             (st\<lparr>current_org_table_name := org_table_name\<rparr>) org_table of
        Inl e \<Rightarrow> Inl e
      | Inr st1 \<Rightarrow> process_org_tables E data_catalog st1 tables)"

definition process_org_tables_into_dwh ::
    "env \<Rightarrow> catalog_rule list \<Rightarrow> state \<Rightarrow> (string \<times> row list) list \<Rightarrow> error + state" where
  "process_org_tables_into_dwh E data_catalog st org_tables =
     (case process_org_tables E data_catalog st org_tables of
        Inl e \<Rightarrow> Inl e
      | Inr st1 \<Rightarrow> Inr (save_all_rows_in_que st1))"

section \<open>What a run has put out\<close>

text \<open>
  The rows waiting for a table, the rows already written to it, and both together:
  every row enqueued for the table so far, in order.
\<close>

definition queue_of :: "state \<Rightarrow> string \<Rightarrow> row list" where
  "queue_of st t = (case map_of (batch_que st) t of None \<Rightarrow> [] | Some q \<Rightarrow> q)"

definition written :: "state \<Rightarrow> string \<Rightarrow> row list" where
  "written st t = concat (map snd (filter (\<lambda>w. fst w = t) (saved st)))"

definition enqueued :: "state \<Rightarrow> string \<Rightarrow> row list" where
  "enqueued st t = written st t @ queue_of st t"

text \<open>The audit row that \<^verbatim>\<open>handle_exception\<close> enqueues, as the batch writer stores it.\<close>

definition logged :: "env \<Rightarrow> state \<Rightarrow> val \<Rightarrow> val \<Rightarrow> row \<Rightarrow> row" where
  "logged E st target_col org_col new_row =
     fill_missing (get_columns E ''exceptions'')
       (exception_row E st (Suc (log_file_lines E st)) target_col org_col new_row)"

text \<open>
  Every row of a list has every column of the table; every queued and every written row
  of a state has; every queue of a state is below the flush threshold.
\<close>

definition full_rows :: "env \<Rightarrow> string \<Rightarrow> row list \<Rightarrow> bool" where
  "full_rows E t rows = (\<forall>r\<in>set rows. \<forall>c\<in>set (get_columns E t). has_key c r)"

definition rows_full :: "env \<Rightarrow> state \<Rightarrow> bool" where
  "rows_full E st =
     ((\<forall>tq\<in>set (batch_que st). full_rows E (fst tq) (snd tq)) \<and>
      (\<forall>tq\<in>set (saved st). full_rows E (fst tq) (snd tq)))"

definition queues_bounded :: "state \<Rightarrow> bool" where
  "queues_bounded st = (\<forall>tq\<in>set (batch_que st). length (snd tq) < que_limit)"

text \<open>
  A property of states that only the batch queue and the written rows decide, and that
  \<^verbatim>\<open>add_row_to_batch\<close> keeps.
\<close>

definition batch_inv :: "env \<Rightarrow> (state \<Rightarrow> bool) \<Rightarrow> bool" where
  "batch_inv E P =
     ((\<forall>st r t. P st \<longrightarrow> P (add_row_to_batch E st r t)) \<and>
      (\<forall>st st'. batch_que st' = batch_que st \<and> saved st' = saved st \<and> P st \<longrightarrow> P st'))"

text \<open>The row that a new translation enqueues for the dictionary table.\<close>

definition dictionary_row :: "env \<Rightarrow> ustring \<Rightarrow> row" where
  "dictionary_row E h =
     fill_missing (get_columns E ''dictionary'')
       [(''he'', VStr h), (''en'', VStr (svc_translate E h))]"

text \<open>
  One step of a run: any of the controller's methods taking the state \<open>st\<close> to
  \<open>st'\<close>. Two translations of one run are separated by a sequence of such steps.
\<close>

inductive run_step :: "env \<Rightarrow> state \<Rightarrow> state \<Rightarrow> bool" for E :: env where
  enqueue: "run_step E st (add_row_to_batch E st r t)"
| recorded: "run_step E st (handle_exception E st org_row new_row e)"
| validated: "run_step E st (validate_and_enqueue E st org_row new_row)"
| translated: "translate_heb_words E st r = (st', r') \<Longrightarrow> run_step E st st'"
| encounter: "add_encounter_num E st mc = Inr (st', mc') \<Longrightarrow> run_step E st st'"
| concept: "run_step E st (concept_dimension_process E st mc org_row)"
| patient: "patient_dimension_process E st mc org_row cat = Inr st' \<Longrightarrow> run_step E st st'"
| fan_out_rule:
    "process_row_by_observation_fact_rules E st mc org_row r = Inr st' \<Longrightarrow> run_step E st st'"
| observation: "observation_fact_process E st mc org_row cat = Inr st' \<Longrightarrow> run_step E st st'"
| source_row: "process_org_row_into_dwh E cat st org_row = Inr st' \<Longrightarrow> run_step E st st'"
| source_tables: "process_org_tables E cat st tabs = Inr st' \<Longrightarrow> run_step E st st'"
| flush_all: "run_step E st (save_all_rows_in_que st)"
| org_table: "run_step E st (st\<lparr>current_org_table_name := n\<rparr>)"
| dwh_table: "run_step E st (st\<lparr>current_dwh_table_name := t\<rparr>)"

text \<open>
  What a step may do to the translation cache: entries of the in-memory dictionary stay
  as they are, and a text is sent to the service at most once more, and only when it was
  not in the dictionary and is in it afterwards.
\<close>

definition cache_step :: "env \<Rightarrow> state \<Rightarrow> state \<Rightarrow> bool" where
  "cache_step E st st' =
     ((\<forall>x y. map_of (loaded_dictionary E st) x = Some y \<longrightarrow>
             map_of (loaded_dictionary E st') x = Some y) \<and>
      (\<forall>h. count_list (translate_calls st') h = count_list (translate_calls st) h \<or>
           (map_of (loaded_dictionary E st) (VStr h) = None \<and>
            map_of (loaded_dictionary E st') (VStr h) \<noteq> None \<and>
            count_list (translate_calls st') h = count_list (translate_calls st) h + 1)))"

section \<open>A small warehouse for the examples\<close>

definition col :: "string \<Rightarrow> bool \<Rightarrow> column_info" where
  "col n b = \<lparr>col_name = n, nullable = b\<rparr>"

definition wh_columns :: "string \<Rightarrow> column_info list" where
  "wh_columns t =
     (if t = ''observation_fact'' then
        [col ''patient_num'' False, col ''encounter_num'' False, col ''concept_cd'' False,
         col ''start_date'' True, col ''modifier_cd'' True, col ''tval_char'' True,
         col ''nval_num'' True, col ''valtype_cd'' True, col ''update_date'' True,
         col ''download_date'' True, col ''import_date'' True, col ''sourcesystem_cd'' True,
         col ''upload_id'' True]
      else if t = ''encounters'' then [col ''date'' False, col ''encounter_num'' False]
      else if t = ''dictionary'' then [col ''he'' False, col ''en'' True]
      else if t = ''exceptions'' then
        [col ''id'' True, col ''log_file_id'' False, col ''target_table'' True,
         col ''org_table'' True, col ''target_col'' True, col ''org_col'' True,
         col ''row_json'' True]
      else [])"

definition heb_pain :: ustring where
  "heb_pain = [1499, 1488, 1489]"

definition wh_env :: env where
  "wh_env = \<lparr>db_columns = wh_columns, db_dictionary = [],
              db_encounters = [(VDate 19700, VInt 1)],
              svc_translate = (\<lambda>s. ustr ''pain''), json_dumps = (\<lambda>r. ustr ''{}''),
              py_str = (\<lambda>v. ustr ''?''), row_str = (\<lambda>r. ustr ''{}''),
              clock = (19800, 0)\<rparr>"

definition wh_state :: state where
  "wh_state = \<lparr>dwh_dictionary = None, encounters = None,
                current_org_table_name = ''Visits'',
                current_dwh_table_name = ''observation_fact'',
                batch_que = [], saved = [], translate_calls = [], log_files = []\<rparr>"

definition rule :: "string \<Rightarrow> string \<Rightarrow> val \<Rightarrow> val \<Rightarrow> catalog_rule" where
  "rule c tc cc mc = \<lparr>table_name = ''Visits'', column_name = c,
                        target_table = ''observation_fact'', target_column = tc,
                        concept_cd = cc, modifier_cd = mc\<rparr>"

definition patient_rule :: catalog_rule where
  "patient_rule = rule ''patient_id'' ''patient_num'' VNone VNone"

definition date_rule :: catalog_rule where
  "date_rule = rule ''Entry_Date'' ''start_date'' VNone VNone"

definition complaint_rule :: catalog_rule where
  "complaint_rule = rule ''complaint'' ''tval_char'' (VStr (ustr ''COMPLAINT'')) (VStr (ustr ''TEXT''))"

definition height_rule :: catalog_rule where
  "height_rule = rule ''height'' ''nval_num'' (VStr (ustr ''HEIGHT'')) (VStr (ustr ''CM''))"

definition weight_rule :: catalog_rule where
  "weight_rule = rule ''weight'' ''nval_num'' (VStr (ustr ''WEIGHT'')) (VStr (ustr ''@''))"

definition bmi_rule :: catalog_rule where
  "bmi_rule = rule ''bmi'' ''nval_num'' (VStr (ustr ''BMI'')) VNone"

definition base_cols :: row where
  "base_cols = [(''patient_num'', VInt 7), (''start_date'', VDateTime 19723 3600)]"

definition zero_cols :: row where
  "zero_cols = [(''patient_num'', VInt 0), (''start_date'', VDateTime 19723 3600),
                (''encounter_num'', VInt 2)]"

definition enc_cols :: row where
  "enc_cols = [(''patient_num'', VInt 7), (''start_date'', VDateTime 19723 3600),
               (''encounter_num'', VInt 2)]"

definition fresh_env :: env where
  "fresh_env = wh_env\<lparr>db_encounters := []\<rparr>"

definition visit_no_rule :: catalog_rule where
  "visit_no_rule = rule ''visit_no'' ''encounter_num'' (VStr (ustr ''VISIT'')) (VStr (ustr ''NO''))"

definition visit_no_outcome :: state where
  "visit_no_outcome =
     wh_state\<lparr>encounters := Some [(VDate 19700, VInt 1), (VDate 19723, VInt 2)],
       batch_que :=
         [(''encounters'', [[(''date'', VDate 19723), (''encounter_num'', VInt 2)]]),
          (''observation_fact'',
           [[(''patient_num'', VInt 7), (''start_date'', VDateTime 19723 3600),
             (''encounter_num'', VInt 2), (''nval_num'', VInt 70),
             (''concept_cd'', VStr (ustr ''WEIGHT'')), (''modifier_cd'', VStr (ustr ''@'')),
             (''valtype_cd'', VStr (ustr ''n'')), (''tval_char'', VNone),
             (''update_date'', VNone), (''download_date'', VNone), (''import_date'', VNone),
             (''sourcesystem_cd'', VNone), (''upload_id'', VNone)],
            [(''patient_num'', VInt 7), (''start_date'', VDateTime 19723 3600),
             (''encounter_num'', VInt 5),
             (''concept_cd'', VStr (ustr ''VISIT'')), (''modifier_cd'', VStr (ustr ''NO'')),
             (''tval_char'', VNone), (''nval_num'', VNone), (''valtype_cd'', VNone),
             (''update_date'', VNone), (''download_date'', VNone), (''import_date'', VNone),
             (''sourcesystem_cd'', VNone), (''upload_id'', VNone)]])]\<rparr>"

section \<open>Dictionaries and the batch queue\<close>

lemma map_of_dict_set: "map_of (dict_set k v d) = (map_of d)(k \<mapsto> v)"
  by (induction d) (auto simp: fun_eq_iff)

lemma has_key_dict_set: "has_key k' (dict_set k v d) = (k' = k \<or> has_key k' d)"
  by (simp add: has_key_def map_of_dict_set)

lemma keys_dict_set:
  "map fst (dict_set k v d) = (if has_key k d then map fst d else map fst d @ [k])"
  by (induction d) (auto simp: has_key_def)

lemma distinct_dict_set: "distinct (map fst d) \<Longrightarrow> distinct (map fst (dict_set k v d))"
  by (auto simp: keys_dict_set has_key_def map_of_eq_None_iff)

lemma map_of_fill_missing:
  "map_of (fill_missing cs r) k =
     (case map_of r k of Some v \<Rightarrow> Some v | None \<Rightarrow> if k \<in> set cs then Some VNone else None)"
  by (induction cs arbitrary: r) (auto simp: map_of_dict_set has_key_def split: option.splits)

lemma queue_of_add_row:
  "queue_of (add_row_to_batch E st r t) t' =
     (if t' = t then (if que_limit \<le> Suc (length (queue_of st t)) then []
                      else queue_of st t @ [fill_missing (get_columns E t) r])
      else queue_of st t')"
  by (auto simp: add_row_to_batch_def queue_of_def Let_def map_of_dict_set split: option.splits)

lemma written_add_row:
  "written (add_row_to_batch E st r t) t' =
     (if t' = t \<and> que_limit \<le> Suc (length (queue_of st t))
      then written st t @ queue_of st t @ [fill_missing (get_columns E t) r]
      else written st t')"
  by (auto simp: add_row_to_batch_def queue_of_def written_def Let_def split: option.splits)

lemma enqueued_add_row:
  "enqueued (add_row_to_batch E st r t) t' =
     enqueued st t' @ (if t' = t then [fill_missing (get_columns E t) r] else [])"
  by (simp add: enqueued_def queue_of_add_row written_add_row)

lemma set_dict_set: "set (dict_set k v d) \<subseteq> insert (k, v) (set d)"
  by (induction d) auto

lemma add_row_to_batch_fields [simp]:
  "dwh_dictionary (add_row_to_batch E st r t) = dwh_dictionary st"
  "encounters (add_row_to_batch E st r t) = encounters st"
  "current_org_table_name (add_row_to_batch E st r t) = current_org_table_name st"
  "current_dwh_table_name (add_row_to_batch E st r t) = current_dwh_table_name st"
  "translate_calls (add_row_to_batch E st r t) = translate_calls st"
  "log_files (add_row_to_batch E st r t) = log_files st"
  by (simp_all add: add_row_to_batch_def Let_def)

lemma has_key_fill_missing:
  "has_key k (fill_missing cs r) = (has_key k r \<or> k \<in> set cs)"
  by (auto simp: has_key_def map_of_fill_missing split: option.splits)

lemma full_rows_append:
  "full_rows E t (xs @ ys) = (full_rows E t xs \<and> full_rows E t ys)"
  by (auto simp: full_rows_def)

lemma full_rows_filled: "full_rows E t [fill_missing (get_columns E t) r]"
  by (simp add: full_rows_def has_key_fill_missing)

lemma full_rows_queue_of:
  "full_rows E t (queue_of st t)" if "\<forall>tq\<in>set (batch_que st). full_rows E (fst tq) (snd tq)"
proof (cases "map_of (batch_que st) t")
  case None
  then show ?thesis by (simp add: queue_of_def full_rows_def)
next
  case (Some q)
  then have "(t, q) \<in> set (batch_que st)" by (rule map_of_SomeD)
  with that have "full_rows E t q" by fastforce
  with Some show ?thesis by (simp add: queue_of_def)
qed

lemma rows_full_add_row:
  assumes "rows_full E st"
  shows "rows_full E (add_row_to_batch E st r t)"
proof -
  let ?filled = "fill_missing (get_columns E t) r"
  let ?q = "queue_of st t @ [?filled]"
  have q: "full_rows E t ?q"
    using assms by (simp add: full_rows_append full_rows_filled full_rows_queue_of rows_full_def)
  have e: "full_rows E t []" by (simp add: full_rows_def)
  have que: "\<forall>tq\<in>set (dict_set t v (batch_que st)). full_rows E (fst tq) (snd tq)"
    if "full_rows E t v" for v
    using set_dict_set [of t v "batch_que st"] assms that by (auto simp: rows_full_def)
  have eq: "(case map_of (batch_que st) t of None \<Rightarrow> [?filled] | Some q0 \<Rightarrow> q0 @ [?filled]) = ?q"
    by (simp add: queue_of_def split: option.splits)
  show ?thesis
    unfolding add_row_to_batch_def Let_def eq
    using que [OF q] que [OF e] q assms by (simp add: rows_full_def)
qed

lemma rows_full_save_all: "rows_full E st \<Longrightarrow> rows_full E (save_all_rows_in_que st)"
  by (auto simp: rows_full_def save_all_rows_in_que_def)

lemma batch_que_save_all: "batch_que (save_all_rows_in_que st) = batch_que st"
  by (simp add: save_all_rows_in_que_def)

lemma queue_length_add_row: "length (queue_of (add_row_to_batch E st r t) t) < que_limit"
  by (simp add: queue_of_add_row que_limit_def)

lemma queues_bounded_add_row:
  assumes "queues_bounded st"
  shows "queues_bounded (add_row_to_batch E st r t)"
proof -
  have que: "\<forall>tq\<in>set (dict_set t v (batch_que st)). length (snd tq) < que_limit"
    if "length v < que_limit" for v
    using set_dict_set [of t v "batch_que st"] assms that by (auto simp: queues_bounded_def)
  have e: "length ([] :: row list) < que_limit" by (simp add: que_limit_def)
  show ?thesis
    unfolding add_row_to_batch_def Let_def queues_bounded_def
    using que [OF e] que by (simp add: not_le)
qed

section \<open>Validator\<close>

lemma validate_cols_ok:
  "(validate_cols cs r = Inr ()) = (\<forall>c\<in>set cs. \<exists>v. map_of r c = Some v \<and> truthy v)"
  by (induction cs) (auto split: option.splits)

lemma validate_cols_first:
  "\<forall>p\<in>set pre. \<exists>v. map_of r p = Some v \<and> truthy v \<Longrightarrow>
   \<not> (\<exists>v. map_of r c = Some v \<and> truthy v) \<Longrightarrow>
   validate_cols (pre @ c # post) r = Inl (NotNullColumnIsMissing c)"
  by (induction pre) (auto split: option.splits)

lemma first_failing_column:
  "\<not> (\<forall>c\<in>set cs. P c) \<Longrightarrow> \<exists>pre c post. cs = pre @ c # post \<and> (\<forall>p\<in>set pre. P p) \<and> \<not> P c"
proof (induction cs)
  case Nil
  then show ?case by simp
next
  case (Cons a cs)
  show ?case
  proof (cases "P a")
    case False
    then have "a # cs = [] @ a # cs \<and> (\<forall>p\<in>set []. P p) \<and> \<not> P a" by simp
    then show ?thesis by blast
  next
    case True
    with Cons.prems have "\<not> (\<forall>c\<in>set cs. P c)" by simp
    from Cons.IH [OF this] obtain pre c post
      where "cs = pre @ c # post" "\<forall>p\<in>set pre. P p" "\<not> P c" by blast
    with True have "a # cs = (a # pre) @ c # post \<and> (\<forall>p\<in>set (a # pre). P p) \<and> \<not> P c"
      by simp
    then show ?thesis by blast
  qed
qed

text \<open>
  C7. The validator succeeds exactly when every NOT NULL column of the current target
  table is in the row with a truthy value. Otherwise it fails with
  \<open>NotNullColumnIsMissing\<close> for the first column, in the order the storage reports
  them, that is absent or falsy; the empty string and the number zero are falsy.
\<close>

theorem validate_row_first_missing:
  fixes E st r
  defines "cols \<equiv> get_not_null_columns E (current_dwh_table_name st)"
  shows "((validate_row E st r = Inr ()) =
            (\<forall>c\<in>set cols. \<exists>v. map_of r c = Some v \<and> truthy v))
       \<and> (\<not> (\<forall>c\<in>set cols. \<exists>v. map_of r c = Some v \<and> truthy v) \<longrightarrow>
            (\<exists>pre c post. cols = pre @ c # post
               \<and> (\<forall>p\<in>set pre. \<exists>v. map_of r p = Some v \<and> truthy v)
               \<and> \<not> (\<exists>v. map_of r c = Some v \<and> truthy v)
               \<and> validate_row E st r = Inl (NotNullColumnIsMissing c)))
       \<and> \<not> truthy (VStr []) \<and> \<not> truthy (VInt 0)"
proof -
  have ok: "(validate_row E st r = Inr ()) =
              (\<forall>c\<in>set cols. \<exists>v. map_of r c = Some v \<and> truthy v)"
    by (simp add: validate_row_def cols_def validate_cols_ok)
  have bad: "\<exists>pre c post. cols = pre @ c # post
               \<and> (\<forall>p\<in>set pre. \<exists>v. map_of r p = Some v \<and> truthy v)
               \<and> \<not> (\<exists>v. map_of r c = Some v \<and> truthy v)
               \<and> validate_row E st r = Inl (NotNullColumnIsMissing c)"
    if "\<not> (\<forall>c\<in>set cols. \<exists>v. map_of r c = Some v \<and> truthy v)"
  proof -
    from first_failing_column [OF that]
    obtain pre c post where split: "cols = pre @ c # post"
      and pre: "\<forall>p\<in>set pre. \<exists>v. map_of r p = Some v \<and> truthy v"
      and c: "\<not> (\<exists>v. map_of r c = Some v \<and> truthy v)"
      by blast
    have "validate_row E st r = Inl (NotNullColumnIsMissing c)"
      using validate_cols_first [OF pre c, of post] split
      by (simp add: validate_row_def cols_def)
    with split pre c show ?thesis by blast
  qed
  show ?thesis using ok bad by simp
qed

theorem validate_row_first_missing_witness:
  "validate_row wh_env wh_state
     [(''patient_num'', VInt 7), (''encounter_num'', VInt 0), (''concept_cd'', VStr [])]
     \<noteq> Inr ()
   \<and> validate_row wh_env wh_state
     [(''patient_num'', VInt 7), (''encounter_num'', VInt 3), (''concept_cd'', VStr (ustr ''C''))]
     = Inr ()"
  using validate_row_first_missing [of wh_env wh_state
          "[(''patient_num'', VInt 7), (''encounter_num'', VInt 0), (''concept_cd'', VStr [])]"]
        validate_row_first_missing [of wh_env wh_state
          "[(''patient_num'', VInt 7), (''encounter_num'', VInt 3), (''concept_cd'', VStr (ustr ''C''))]"]
  by (simp add: wh_env_def wh_state_def wh_columns_def col_def get_not_null_columns_def ustr_def)

section \<open>Invariants of the batch queue along a run\<close>

declare handle_exception.simps [simp del]

lemma batch_inv_add: "batch_inv E P \<Longrightarrow> P st \<Longrightarrow> P (add_row_to_batch E st r t)"
  by (simp add: batch_inv_def)

lemma batch_inv_frame:
  "batch_inv E P \<Longrightarrow> P st \<Longrightarrow> batch_que st' = batch_que st \<Longrightarrow> saved st' = saved st \<Longrightarrow> P st'"
  unfolding batch_inv_def by blast

lemma inv_handle_exception:
  assumes "batch_inv E P" "P st"
  shows "P (handle_exception E st org_row new_row e)"
proof -
  have "P (st\<lparr>log_files := n\<rparr>)" for n
    using assms by (rule batch_inv_frame) simp_all
  then show ?thesis
    using assms(1) by (cases e) (simp_all add: handle_exception.simps write_to_log_file_def batch_inv_add assms(2))
qed

lemma inv_translate_word:
  assumes "batch_inv E P" "P st"
  shows "P (fst (translate_word E st s))"
proof -
  let ?d = "loaded_dictionary E st"
  have 1: "P (st\<lparr>dwh_dictionary := Some ?d\<rparr>)"
    using assms by (rule batch_inv_frame) simp_all
  have 2: "P (st\<lparr>dwh_dictionary := Some ?d, translate_calls := c\<rparr>)" for c
    using assms by (rule batch_inv_frame) simp_all
  have 3: "P (add_row_to_batch E (st\<lparr>dwh_dictionary := Some ?d, translate_calls := c\<rparr>) r t)" for c r t
    using assms(1) 2 by (rule batch_inv_add)
  have 4: "P ((add_row_to_batch E (st\<lparr>dwh_dictionary := Some ?d, translate_calls := c\<rparr>) r t)
             \<lparr>dwh_dictionary := d'\<rparr>)" for c r t d'
    using assms(1) 3 by (rule batch_inv_frame) simp_all
  show ?thesis
    using 1 4 by (simp add: translate_word_def Let_def split: option.splits)
qed

lemma inv_translate_items:
  "batch_inv E P \<Longrightarrow> P st \<Longrightarrow> P (fst (translate_items E st items acc))"
proof (induction items arbitrary: st acc)
  case Nil
  then show ?case by simp
next
  case (Cons kv items)
  obtain k v where kv: "kv = (k, v)" by (cases kv)
  show ?case
  proof (cases "is_hebrew_val v")
    case True
    then obtain s where v: "v = VStr s" and h: "contains_hebrew s" by (cases v) auto
    obtain st1 en where tw: "translate_word E st s = (st1, en)" by (cases "translate_word E st s")
    have "P st1" using inv_translate_word [OF Cons.prems, of s] tw by simp
    from Cons.IH [OF Cons.prems(1) this] show ?thesis by (simp add: kv v h tw)
  next
    case False
    then have "translate_items E st (kv # items) acc = translate_items E st items (dict_set k v acc)"
      by (cases v) (simp_all add: kv)
    with Cons.IH [OF Cons.prems] show ?thesis by simp
  qed
qed

lemma inv_translate_heb_words:
  "batch_inv E P \<Longrightarrow> P st \<Longrightarrow> translate_heb_words E st r = (st', r') \<Longrightarrow> P st'"
  using inv_translate_items [of E P st r "[]"] by (simp add: translate_heb_words_def)

lemma inv_validate_and_enqueue:
  "batch_inv E P \<Longrightarrow> P st \<Longrightarrow> P (validate_and_enqueue E st org_row new_row)"
  by (simp add: validate_and_enqueue_def inv_handle_exception batch_inv_add split: sum.splits)

lemma inv_add_encounter_num:
  assumes "batch_inv E P" "P st" "add_encounter_num E st mc = Inr (st', mc')"
  shows "P st'"
proof -
  let ?e = "loaded_encounters E st"
  have 1: "P (st\<lparr>encounters := Some ?e\<rparr>)"
    using assms(1,2) by (rule batch_inv_frame) simp_all
  have 2: "P ((add_row_to_batch E (st\<lparr>encounters := Some ?e\<rparr>) r t)\<lparr>encounters := e'\<rparr>)" for r t e'
    using assms(1) batch_inv_add [OF assms(1) 1] by (rule batch_inv_frame) simp_all
  show ?thesis
    using assms(3) 1 2
    by (auto simp: add_encounter_num_def Let_def split: option.splits sum.splits)
qed

lemma inv_translate_then_enqueue:
  assumes "batch_inv E P" "P st"
  shows "P (validate_and_enqueue E (fst (translate_heb_words E st r)) org_row
              (snd (translate_heb_words E st r)))"
proof -
  have "P (fst (translate_heb_words E st r))"
    using inv_translate_items [OF assms, of r "[]"] by (simp add: translate_heb_words_def)
  with assms(1) show ?thesis by (rule inv_validate_and_enqueue)
qed

lemma inv_concept_dimension_process:
  "batch_inv E P \<Longrightarrow> P st \<Longrightarrow> P (concept_dimension_process E st mc org_row)"
  by (simp add: concept_dimension_process_def Let_def case_prod_beta inv_translate_then_enqueue)

lemma inv_patient_dimension_process:
  "batch_inv E P \<Longrightarrow> P st \<Longrightarrow> patient_dimension_process E st mc org_row cat = Inr st' \<Longrightarrow> P st'"
  by (auto simp: patient_dimension_process_def Let_def case_prod_beta inv_translate_then_enqueue
           split: sum.splits)

lemma inv_process_rule:
  assumes "batch_inv E P" "P st"
    and "process_row_by_observation_fact_rules E st mc org_row r = Inr st'"
  shows "P st'"
proof -
  from assms(3) obtain v where v: "map_of org_row (column_name r) = Some v"
    by (auto simp: process_row_by_observation_fact_rules_def split: option.splits)
  show ?thesis
  proof (cases "isna v")
    case True
    with assms(3) v have "st' = handle_exception E st org_row mc
                                  (OriginalDataFieldIsMissing (column_name r))"
      by (simp add: process_row_by_observation_fact_rules_def)
    with inv_handle_exception [OF assms(1,2)] show ?thesis by (simp only:)
  next
    case False
    with assms(3) v inv_translate_then_enqueue [OF assms(1,2)] show ?thesis
      by (auto simp: process_row_by_observation_fact_rules_def Let_def case_prod_beta)
  qed
qed

lemma inv_process_rules:
  "batch_inv E P \<Longrightarrow> P st \<Longrightarrow> process_rules E st mc org_row rs = Inr st' \<Longrightarrow> P st'"
  by (induction rs arbitrary: st) (auto split: sum.splits dest: inv_process_rule)

lemma inv_observation_fact_process:
  "batch_inv E P \<Longrightarrow> P st \<Longrightarrow> observation_fact_process E st mc org_row cat = Inr st' \<Longrightarrow> P st'"
  by (auto simp: observation_fact_process_def split: sum.splits prod.splits
           dest: inv_add_encounter_num inv_process_rules)

lemma inv_dispatch_table:
  "batch_inv E P \<Longrightarrow> P st \<Longrightarrow> dispatch_table E st mc org_row cat = Inr st' \<Longrightarrow> P st'"
  by (auto simp: dispatch_table_def inv_concept_dimension_process split: if_splits
           dest: inv_patient_dimension_process inv_observation_fact_process)

lemma inv_process_dwh_tables:
  "batch_inv E P \<Longrightarrow> P st \<Longrightarrow> process_dwh_tables E st org_row cat ts = Inr st' \<Longrightarrow> P st'"
proof (induction ts arbitrary: st)
  case Nil
  then show ?case by simp
next
  case (Cons t ts)
  let ?st1 = "st\<lparr>current_dwh_table_name := t\<rparr>"
  have 1: "P ?st1" using Cons.prems(1,2) by (rule batch_inv_frame) simp_all
  show ?case
  proof (cases "get_mandatory_cols E (filter (\<lambda>r. target_table r = t) cat) org_row")
    case (Inr mc)
    with Cons.prems(3) obtain st2 where
      d: "dispatch_table E ?st1 mc org_row (filter (\<lambda>r. target_table r = t) cat) = Inr st2"
      and rest: "process_dwh_tables E st2 org_row cat ts = Inr st'"
      by (auto simp: Let_def split: sum.splits)
    from inv_dispatch_table [OF Cons.prems(1) 1 d] have "P st2" .
    from Cons.IH [OF Cons.prems(1) this rest] show ?thesis .
  next
    case (Inl e)
    with Cons.prems(3) obtain c where e: "e = MandatoryFieldMissing c"
      by (cases e) (simp_all add: Let_def)
    have "P (handle_exception E ?st1 org_row [] (MandatoryFieldMissing c))"
      using Cons.prems(1) 1 by (rule inv_handle_exception)
    from Cons.IH [OF Cons.prems(1) this] Cons.prems(3) Inl e show ?thesis
      by (simp add: Let_def)
  qed
qed

lemma inv_process_org_row_into_dwh:
  "batch_inv E P \<Longrightarrow> P st \<Longrightarrow> process_org_row_into_dwh E cat st org_row = Inr st' \<Longrightarrow> P st'"
  by (auto simp: process_org_row_into_dwh_def Let_def dest: inv_process_dwh_tables)

lemma inv_process_org_rows:
  "batch_inv E P \<Longrightarrow> P st \<Longrightarrow> process_org_rows E cat st rows = Inr st' \<Longrightarrow> P st'"
  by (induction rows arbitrary: st) (auto split: sum.splits dest: inv_process_org_row_into_dwh)

lemma inv_process_org_tables:
  "batch_inv E P \<Longrightarrow> P st \<Longrightarrow> process_org_tables E cat st tabs = Inr st' \<Longrightarrow> P st'"
proof (induction tabs arbitrary: st)
  case Nil
  then show ?case by simp
next
  case (Cons nt tabs)
  obtain n t where nt: "nt = (n, t)" by (cases nt)
  have 1: "P (st\<lparr>current_org_table_name := n\<rparr>)"
    using Cons.prems(1,2) by (rule batch_inv_frame) simp_all
  from Cons.prems(3) obtain st1 where
    a: "process_org_rows E cat (st\<lparr>current_org_table_name := n\<rparr>) t = Inr st1"
    and b: "process_org_tables E cat st1 tabs = Inr st'"
    by (auto simp: nt split: sum.splits)
  from inv_process_org_rows [OF Cons.prems(1) 1 a] have "P st1" .
  from Cons.IH [OF Cons.prems(1) this b] show ?case .
qed

lemma batch_inv_rows_full: "batch_inv E (rows_full E)"
  by (simp add: batch_inv_def rows_full_add_row) (simp add: rows_full_def)

lemma batch_inv_queues_bounded: "batch_inv E queues_bounded"
  by (simp add: batch_inv_def queues_bounded_add_row) (simp add: queues_bounded_def)

section \<open>What each step enqueues\<close>

lemma enqueued_update [simp]:
  "enqueued (st\<lparr>dwh_dictionary := a\<rparr>) t = enqueued st t"
  "enqueued (st\<lparr>encounters := b\<rparr>) t = enqueued st t"
  "enqueued (st\<lparr>current_org_table_name := c\<rparr>) t = enqueued st t"
  "enqueued (st\<lparr>current_dwh_table_name := d\<rparr>) t = enqueued st t"
  "enqueued (st\<lparr>translate_calls := e\<rparr>) t = enqueued st t"
  "enqueued (st\<lparr>log_files := f\<rparr>) t = enqueued st t"
  by (simp_all add: enqueued_def written_def queue_of_def)

lemma exception_row_log_files [simp]:
  "exception_row E (st\<lparr>log_files := n\<rparr>) i tc oc r = exception_row E st i tc oc r"
  by (simp add: exception_row_def)

lemma enqueued_handle_exception:
  "enqueued (handle_exception E st org_row new_row e) t =
     enqueued st t @
     (if t = ''exceptions'' then
        (case e of
           MandatoryFieldMissing c \<Rightarrow> [logged E st VNone (VStr (ustr c)) new_row]
         | OriginalDataFieldIsMissing c \<Rightarrow> [logged E st VNone (VStr (ustr c)) new_row]
         | NotNullColumnIsMissing c \<Rightarrow> [logged E st (VStr (ustr c)) VNone new_row]
         | _ \<Rightarrow> [])
      else [])"
  by (cases e) (simp_all add: handle_exception.simps write_to_log_file_def enqueued_add_row logged_def)

lemma handle_exception_fields [simp]:
  "dwh_dictionary (handle_exception E st org_row new_row e) = dwh_dictionary st"
  "encounters (handle_exception E st org_row new_row e) = encounters st"
  "current_org_table_name (handle_exception E st org_row new_row e) = current_org_table_name st"
  "current_dwh_table_name (handle_exception E st org_row new_row e) = current_dwh_table_name st"
  "translate_calls (handle_exception E st org_row new_row e) = translate_calls st"
  by (cases e; simp add: handle_exception.simps write_to_log_file_def)+

lemma loaded_dictionary_update [simp]:
  "loaded_dictionary E (st\<lparr>dwh_dictionary := Some d\<rparr>) = d"
  by (simp add: loaded_dictionary_def)

lemma translate_word_fields [simp]:
  "encounters (fst (translate_word E st s)) = encounters st"
  "current_org_table_name (fst (translate_word E st s)) = current_org_table_name st"
  "current_dwh_table_name (fst (translate_word E st s)) = current_dwh_table_name st"
  "log_files (fst (translate_word E st s)) = log_files st"
  by (simp_all add: translate_word_def Let_def split: option.splits)

lemma enqueued_translate_word:
  "enqueued (fst (translate_word E st s)) t =
     enqueued st t @
     (if t = ''dictionary'' \<and> map_of (loaded_dictionary E st) (VStr s) = None
      then [fill_missing (get_columns E ''dictionary'')
              [(''he'', VStr s), (''en'', VStr (svc_translate E s))]]
      else [])"
  by (simp add: translate_word_def Let_def enqueued_add_row split: option.splits)

lemma translate_items_step:
  "translate_items E st ((k, v) # items) acc =
     (if is_hebrew_val v
      then translate_items E (fst (translate_word E st (case v of VStr s \<Rightarrow> s | _ \<Rightarrow> [])))
             items (dict_set k (snd (translate_word E st (case v of VStr s \<Rightarrow> s | _ \<Rightarrow> []))) acc)
      else translate_items E st items (dict_set k v acc))"
  by (cases v) (simp_all add: case_prod_beta)

lemma translate_items_fields:
  "encounters (fst (translate_items E st items acc)) = encounters st \<and>
   current_org_table_name (fst (translate_items E st items acc)) = current_org_table_name st \<and>
   current_dwh_table_name (fst (translate_items E st items acc)) = current_dwh_table_name st \<and>
   log_files (fst (translate_items E st items acc)) = log_files st"
proof (induction items arbitrary: st acc)
  case Nil
  then show ?case by simp
next
  case (Cons kv items)
  obtain k v where kv: "kv = (k, v)" by (cases kv)
  show ?case unfolding kv translate_items_step by (simp add: Cons.IH)
qed

lemma enqueued_translate_items:
  "t \<noteq> ''dictionary'' \<Longrightarrow> enqueued (fst (translate_items E st items acc)) t = enqueued st t"
proof (induction items arbitrary: st acc)
  case Nil
  then show ?case by simp
next
  case (Cons kv items)
  obtain k v where kv: "kv = (k, v)" by (cases kv)
  show ?case unfolding kv translate_items_step
    using Cons.prems by (simp add: Cons.IH enqueued_translate_word)
qed

lemma translate_heb_words_fields [simp]:
  "encounters (fst (translate_heb_words E st r)) = encounters st"
  "current_org_table_name (fst (translate_heb_words E st r)) = current_org_table_name st"
  "current_dwh_table_name (fst (translate_heb_words E st r)) = current_dwh_table_name st"
  "log_files (fst (translate_heb_words E st r)) = log_files st"
  by (simp_all add: translate_heb_words_def translate_items_fields)

lemma enqueued_translate_heb_words:
  "t \<noteq> ''dictionary'' \<Longrightarrow> enqueued (fst (translate_heb_words E st r)) t = enqueued st t"
  by (simp add: translate_heb_words_def enqueued_translate_items)

lemma validate_row_cong:
  "current_dwh_table_name st' = current_dwh_table_name st \<Longrightarrow> validate_row E st' r = validate_row E st r"
  by (simp add: validate_row_def)

lemma validate_cols_error:
  "validate_cols cs r = Inl e \<Longrightarrow> \<exists>c. e = NotNullColumnIsMissing c"
  by (induction cs) (auto split: option.splits if_splits)

lemma validate_and_enqueue_fields [simp]:
  "dwh_dictionary (validate_and_enqueue E st org_row r) = dwh_dictionary st"
  "encounters (validate_and_enqueue E st org_row r) = encounters st"
  "current_org_table_name (validate_and_enqueue E st org_row r) = current_org_table_name st"
  "current_dwh_table_name (validate_and_enqueue E st org_row r) = current_dwh_table_name st"
  "translate_calls (validate_and_enqueue E st org_row r) = translate_calls st"
  by (simp_all add: validate_and_enqueue_def split: sum.splits)

lemma enqueued_validate_and_enqueue:
  "enqueued (validate_and_enqueue E st org_row r) t =
     enqueued st t @
     (case validate_row E st r of
        Inr _ \<Rightarrow> if t = current_dwh_table_name st
                 then [fill_missing (get_columns E (current_dwh_table_name st)) r] else []
      | Inl e \<Rightarrow> if t = ''exceptions''
                 then (case e of NotNullColumnIsMissing c \<Rightarrow> [logged E st (VStr (ustr c)) VNone r]
                       | _ \<Rightarrow> [])
                 else [])"
proof (cases "validate_row E st r")
  case (Inr u)
  then show ?thesis by (simp add: validate_and_enqueue_def enqueued_add_row)
next
  case (Inl e)
  then obtain c where "e = NotNullColumnIsMissing c"
    using validate_cols_error [of "get_not_null_columns E (current_dwh_table_name st)" r e]
    by (auto simp: validate_row_def)
  with Inl show ?thesis
    by (simp add: validate_and_enqueue_def enqueued_handle_exception)
qed

lemma process_rule_null:
  "map_of org_row (column_name r) = Some v \<Longrightarrow> isna v \<Longrightarrow>
   process_row_by_observation_fact_rules E st mc org_row r =
     Inr (handle_exception E st org_row mc (OriginalDataFieldIsMissing (column_name r)))"
  by (simp add: process_row_by_observation_fact_rules_def)

lemma process_rule_value:
  "map_of org_row (column_name r) = Some v \<Longrightarrow> \<not> isna v \<Longrightarrow>
   process_row_by_observation_fact_rules E st mc org_row r =
     Inr (validate_and_enqueue E (fst (translate_heb_words E st (observation_row mc r v))) org_row
            (snd (translate_heb_words E st (observation_row mc r v))))"
  by (simp add: process_row_by_observation_fact_rules_def case_prod_beta)

lemma process_rule_cases:
  assumes "process_row_by_observation_fact_rules E st mc org_row r = Inr st'"
  obtains (null) v where "map_of org_row (column_name r) = Some v" "isna v"
      "st' = handle_exception E st org_row mc (OriginalDataFieldIsMissing (column_name r))"
    | (val) v where "map_of org_row (column_name r) = Some v" "\<not> isna v"
      "st' = validate_and_enqueue E (fst (translate_heb_words E st (observation_row mc r v))) org_row
            (snd (translate_heb_words E st (observation_row mc r v)))"
proof -
  from assms obtain v where v: "map_of org_row (column_name r) = Some v"
    by (auto simp: process_row_by_observation_fact_rules_def split: option.splits)
  show thesis
  proof (cases "isna v")
    case True
    with assms v have "st' = handle_exception E st org_row mc
                              (OriginalDataFieldIsMissing (column_name r))"
      by (simp add: process_rule_null)
    from null [OF v True this] show ?thesis .
  next
    case False
    with assms v have "st' = validate_and_enqueue E
            (fst (translate_heb_words E st (observation_row mc r v))) org_row
            (snd (translate_heb_words E st (observation_row mc r v)))"
      by (simp add: process_rule_value)
    from val [OF v False this] show ?thesis .
  qed
qed

lemma process_rule_table:
  "process_row_by_observation_fact_rules E st mc org_row r = Inr st' \<Longrightarrow>
   current_dwh_table_name st' = current_dwh_table_name st \<and>
   current_org_table_name st' = current_org_table_name st \<and>
   encounters st' = encounters st"
  by (erule process_rule_cases) simp_all

lemma process_rule_outcome:
  assumes cur: "current_dwh_table_name st = ''observation_fact''"
    and run: "process_row_by_observation_fact_rules E st mc org_row r = Inr st'"
  shows "length (enqueued st' ''observation_fact'') + length (enqueued st' ''exceptions'') =
         Suc (length (enqueued st ''observation_fact'') + length (enqueued st ''exceptions''))"
  using run
proof (cases rule: process_rule_cases)
  case (null v)
  then show ?thesis by (simp add: enqueued_handle_exception)
next
  case (val v)
  let ?T = "translate_heb_words E st (observation_row mc r v)"
  have c: "current_dwh_table_name (fst ?T) = ''observation_fact''" using cur by simp
  show ?thesis
  proof (cases "validate_row E (fst ?T) (snd ?T)")
    case (Inr u)
    with val(3) c show ?thesis
      by (simp add: enqueued_validate_and_enqueue enqueued_translate_heb_words)
  next
    case (Inl e)
    then obtain col where "e = NotNullColumnIsMissing col"
      using validate_cols_error [of _ "snd ?T" e] by (auto simp: validate_row_def)
    with Inl val(3) c show ?thesis
      by (simp add: enqueued_validate_and_enqueue enqueued_translate_heb_words)
  qed
qed

lemma process_rules_table:
  "process_rules E st mc org_row rs = Inr st' \<Longrightarrow>
   current_dwh_table_name st' = current_dwh_table_name st"
  by (induction rs arbitrary: st) (auto split: sum.splits dest: process_rule_table)

lemma process_rules_outcomes:
  "current_dwh_table_name st = ''observation_fact'' \<Longrightarrow>
   process_rules E st mc org_row rs = Inr st' \<Longrightarrow>
   length (enqueued st' ''observation_fact'') + length (enqueued st' ''exceptions'') =
   length (enqueued st ''observation_fact'') + length (enqueued st ''exceptions'') + length rs"
proof (induction rs arbitrary: st)
  case Nil
  then show ?case by simp
next
  case (Cons r rs)
  from Cons.prems(2) obtain st1 where
    one: "process_row_by_observation_fact_rules E st mc org_row r = Inr st1"
    and rest: "process_rules E st1 mc org_row rs = Inr st'"
    by (auto split: sum.splits)
  have "current_dwh_table_name st1 = ''observation_fact''"
    using process_rule_table [OF one] Cons.prems(1) by simp
  from Cons.IH [OF this rest] process_rule_outcome [OF Cons.prems(1) one]
  show ?case by simp
qed

lemma process_rules_append:
  "process_rules E st mc org_row (rs1 @ rs2) =
     (case process_rules E st mc org_row rs1 of
        Inl e \<Rightarrow> Inl e
      | Inr st1 \<Rightarrow> process_rules E st1 mc org_row rs2)"
  by (induction rs1 arbitrary: st) (auto split: sum.splits)

lemma fan_out_rules_length:
  "length (no_modifier_rows cat) + length (modifier_rows cat) =
   length (filter (\<lambda>r. \<not> isna (modifier_cd r)) cat)"
  by (induction cat) (auto simp: no_modifier_rows_def modifier_rows_def no_modifier_marker_def)

lemma add_encounter_num_table:
  "add_encounter_num E st mc = Inr (st1, mc1) \<Longrightarrow>
   current_dwh_table_name st1 = current_dwh_table_name st"
  by (auto simp: add_encounter_num_def Let_def split: option.splits sum.splits)

lemma enqueued_add_encounter_num:
  "add_encounter_num E st mc = Inr (st1, mc1) \<Longrightarrow> t \<noteq> ''encounters'' \<Longrightarrow>
   enqueued st1 t = enqueued st t"
  by (auto simp: add_encounter_num_def Let_def enqueued_add_row split: option.splits sum.splits)

section \<open>Evaluating the examples\<close>

lemmas wh_defs = wh_env_def wh_columns_def col_def wh_state_def rule_def heb_pain_def
  patient_rule_def date_rule_def complaint_rule_def height_rule_def weight_rule_def bmi_rule_def
  base_cols_def

lemmas run_defs = process_org_row_into_dwh_def get_mandatory_cols_def is_mandatory_rule_def
  dispatch_table_def observation_fact_process_def add_encounter_num_def loaded_encounters_def
  series_max_plus_one_def now_def add_row_to_batch_def get_columns_def has_key_def que_limit_def
  no_modifier_rows_def modifier_rows_def no_modifier_marker_def ustr_def Let_def

lemmas rule_defs = process_row_by_observation_fact_rules_def observation_row_def
  translate_heb_words_def translate_word_def loaded_dictionary_def contains_hebrew_def
  is_hebrew_char_def validate_and_enqueue_def validate_row_def get_not_null_columns_def
  handle_exception.simps write_to_log_file_def log_file_lines_def exception_row_def

section \<open>Observation transformer\<close>

text \<open>
  C1. A rule with a concept code and no modifier code, on a source row whose field for
  the rule holds a value. Such a rule is to produce a target row of its own, as the
  comment on the second loop of \<^verbatim>\<open>observation_fact_process\<close> has it ("if no
  'modifier_cd' save row to dwh"). The loop's filter keeps only the rules whose modifier
  code is present: the row is routed to \<open>observation_fact\<close>, the encounter is assigned,
  and no \<open>observation_fact\<close> row is enqueued.
\<close>

theorem absent_modifier_rule_skipped:
  "process_org_row_into_dwh wh_env [patient_rule, date_rule, bmi_rule] wh_state
     [(''patient_id'', VInt 7), (''Entry_Date'', VDateTime 19723 3600), (''bmi'', VInt 22)]
   = Inr (wh_state\<lparr>encounters := Some [(VDate 19700, VInt 1), (VDate 19723, VInt 2)],
            batch_que := [(''encounters'', [[(''date'', VDate 19723), (''encounter_num'', VInt 2)]])]\<rparr>)
   \<and> \<not> isna (concept_cd bmi_rule) \<and> isna (modifier_cd bmi_rule)"
  by (simp add: run_defs wh_defs)

text \<open>
  What the transformer does with the rules it evaluates: it first assigns the encounter
  and then goes, in this order, through the rules whose modifier code is \<open>@\<close> and the
  rules whose modifier code is present and different from \<open>@\<close>. Every evaluated rule
  ends in exactly one outcome, an enqueued \<open>observation_fact\<close> row or an exception
  record.
\<close>

lemma observation_fact_fan_out:
  assumes "current_dwh_table_name st = ''observation_fact''"
    and "observation_fact_process E st mc org_row cat = Inr st'"
  shows "length (enqueued st' ''observation_fact'') + length (enqueued st' ''exceptions'') =
           length (enqueued st ''observation_fact'') + length (enqueued st ''exceptions'') +
           length (filter (\<lambda>r. \<not> isna (modifier_cd r)) cat)
       \<and> observation_fact_process E st mc org_row cat =
           (case add_encounter_num E st mc of
              Inl e \<Rightarrow> Inl e
            | Inr (st1, mc1) \<Rightarrow>
                process_rules E st1 mc1 org_row (no_modifier_rows cat @ modifier_rows cat))
       \<and> set (no_modifier_rows cat @ modifier_rows cat) = {r \<in> set cat. \<not> isna (modifier_cd r)}"
proof -
  from assms(2) obtain st1 mc1 where
    enc: "add_encounter_num E st mc = Inr (st1, mc1)"
    and rules: "process_rules E st1 mc1 org_row (no_modifier_rows cat @ modifier_rows cat) = Inr st'"
    by (auto simp: observation_fact_process_def process_rules_append split: sum.splits)
  have cur: "current_dwh_table_name st1 = ''observation_fact''"
    using add_encounter_num_table [OF enc] assms(1) by simp
  have "length (enqueued st' ''observation_fact'') + length (enqueued st' ''exceptions'') =
        length (enqueued st1 ''observation_fact'') + length (enqueued st1 ''exceptions'') +
        length (no_modifier_rows cat @ modifier_rows cat)"
    using cur rules by (rule process_rules_outcomes)
  then have count: "length (enqueued st' ''observation_fact'') + length (enqueued st' ''exceptions'') =
           length (enqueued st ''observation_fact'') + length (enqueued st ''exceptions'') +
           length (filter (\<lambda>r. \<not> isna (modifier_cd r)) cat)"
    using enqueued_add_encounter_num [OF enc] fan_out_rules_length [of cat] by simp
  have order: "observation_fact_process E st mc org_row cat =
           (case add_encounter_num E st mc of
              Inl e \<Rightarrow> Inl e
            | Inr (st1, mc1) \<Rightarrow>
                process_rules E st1 mc1 org_row (no_modifier_rows cat @ modifier_rows cat))"
    by (simp add: observation_fact_process_def process_rules_append split: sum.splits)
  have which: "set (no_modifier_rows cat @ modifier_rows cat) = {r \<in> set cat. \<not> isna (modifier_cd r)}"
    by (auto simp: no_modifier_rows_def modifier_rows_def no_modifier_marker_def)
  from count order which show ?thesis by (simp only: simp_thms)
qed

lemma observation_fact_fan_out_example:
  "current_dwh_table_name wh_state = ''observation_fact''
   \<and> (\<exists>st'. observation_fact_process wh_env wh_state base_cols
               [(''height'', VNone), (''weight'', VInt 70), (''bmi'', VInt 22)]
               [height_rule, weight_rule, bmi_rule] = Inr st'
           \<and> length (enqueued st' ''observation_fact'') + length (enqueued st' ''exceptions'') = 2)"
proof -
  have cur: "current_dwh_table_name wh_state = ''observation_fact''"
    by (simp add: wh_state_def)
  have "\<exists>st'. observation_fact_process wh_env wh_state base_cols
               [(''height'', VNone), (''weight'', VInt 70), (''bmi'', VInt 22)]
               [height_rule, weight_rule, bmi_rule] = Inr st'"
    by (simp add: run_defs rule_defs wh_defs)
  then obtain st' where run: "observation_fact_process wh_env wh_state base_cols
               [(''height'', VNone), (''weight'', VInt 70), (''bmi'', VInt 22)]
               [height_rule, weight_rule, bmi_rule] = Inr st'" ..
  have "length (enqueued st' ''observation_fact'') + length (enqueued st' ''exceptions'') = 2"
    using observation_fact_fan_out [OF cur run]
    by (simp add: wh_defs enqueued_def written_def queue_of_def)
  with cur run show ?thesis by blast
qed

section \<open>Fan-out independence\<close>

lemma map_of_logged_org_col [simp]:
  "map_of (logged E st tc oc r) ''org_col'' = Some oc"
  "map_of (logged E st tc oc r) ''target_col'' = Some tc"
  by (simp_all add: logged_def map_of_fill_missing exception_row_def)

lemma process_rules_total:
  "\<forall>r\<in>set rs. has_key (column_name r) org_row \<Longrightarrow>
   \<exists>st'. process_rules E st mc org_row rs = Inr st'"
proof (induction rs arbitrary: st)
  case Nil
  then show ?case by simp
next
  case (Cons r rs)
  then obtain v where v: "map_of org_row (column_name r) = Some v"
    by (auto simp: has_key_def)
  have "\<exists>st1. process_row_by_observation_fact_rules E st mc org_row r = Inr st1"
    using process_rule_null [OF v] process_rule_value [OF v] by (cases "isna v") simp_all
  then obtain st1 where "process_row_by_observation_fact_rules E st mc org_row r = Inr st1" ..
  with Cons.IH [of st1] Cons.prems show ?case by simp
qed

text \<open>
  Two fan-out rules on one source row whose patient number is zero. The source field of
  the first rule is null; the field of the second holds a value, and its row fails the
  NOT NULL validation on \<open>patient_num\<close>. Both end in an exception record and no
  \<open>observation_fact\<close> row is enqueued.
\<close>

theorem sibling_fails_validation_counterexample:
  "process_rules wh_env wh_state zero_cols [(''height'', VNone), (''weight'', VInt 70)]
     [height_rule, weight_rule]
   = Inr (handle_exception wh_env
            (handle_exception wh_env wh_state [(''height'', VNone), (''weight'', VInt 70)]
               zero_cols (OriginalDataFieldIsMissing ''height''))
            [(''height'', VNone), (''weight'', VInt 70)]
            [(''patient_num'', VInt 0), (''start_date'', VDateTime 19723 3600),
             (''encounter_num'', VInt 2), (''nval_num'', VInt 70),
             (''concept_cd'', VStr (ustr ''WEIGHT'')), (''modifier_cd'', VStr (ustr ''@'')),
             (''valtype_cd'', VStr (ustr ''n''))]
            (NotNullColumnIsMissing ''patient_num''))
   \<and> enqueued (handle_exception wh_env
            (handle_exception wh_env wh_state [(''height'', VNone), (''weight'', VInt 70)]
               zero_cols (OriginalDataFieldIsMissing ''height''))
            [(''height'', VNone), (''weight'', VInt 70)]
            [(''patient_num'', VInt 0), (''start_date'', VDateTime 19723 3600),
             (''encounter_num'', VInt 2), (''nval_num'', VInt 70),
             (''concept_cd'', VStr (ustr ''WEIGHT'')), (''modifier_cd'', VStr (ustr ''@'')),
             (''valtype_cd'', VStr (ustr ''n''))]
            (NotNullColumnIsMissing ''patient_num'')) ''observation_fact'' = []"
proof -
  have e: "enqueued wh_state ''observation_fact'' = []"
    by (simp add: enqueued_def written_def queue_of_def wh_state_def)
  have cur: "current_dwh_table_name wh_state = ''observation_fact''"
    by (simp add: wh_state_def)
  show ?thesis
    by (simp add: process_row_by_observation_fact_rules_def observation_row_def
          translate_heb_words_def validate_and_enqueue_def validate_row_def
          get_not_null_columns_def has_key_def cur e enqueued_handle_exception
          contains_hebrew_def is_hebrew_char_def ustr_def zero_cols_def height_rule_def weight_rule_def rule_def wh_env_def wh_columns_def col_def)
qed

text \<open>
  C3, as the code has it. When the source field of a fan-out rule is null, that rule
  enqueues no \<open>observation_fact\<close> row and records exactly one exception naming the
  source column; the caches are untouched and the rules after it are still evaluated.
  A sibling rule whose source field is non-null and whose translated row passes the
  NOT NULL validation enqueues exactly its own row.
\<close>

theorem fan_out_isolation:
  assumes "current_dwh_table_name st = ''observation_fact''"
    and "map_of org_row (column_name r) = Some v" and "isna v"
  shows "\<exists>st1. process_row_by_observation_fact_rules E st mc org_row r = Inr st1
           \<and> enqueued st1 ''observation_fact'' = enqueued st ''observation_fact''
           \<and> enqueued st1 ''exceptions'' =
               enqueued st ''exceptions'' @ [logged E st VNone (VStr (ustr (column_name r))) mc]
           \<and> map_of (logged E st VNone (VStr (ustr (column_name r))) mc) ''org_col'' =
               Some (VStr (ustr (column_name r)))
           \<and> dwh_dictionary st1 = dwh_dictionary st \<and> encounters st1 = encounters st
           \<and> translate_calls st1 = translate_calls st
           \<and> current_dwh_table_name st1 = ''observation_fact''
           \<and> process_rules E st mc org_row (r # rs) = process_rules E st1 mc org_row rs
           \<and> ((\<forall>r'\<in>set rs. has_key (column_name r') org_row) \<longrightarrow>
                (\<exists>st'. process_rules E st mc org_row (r # rs) = Inr st'))
           \<and> (\<forall>s r' v'.
                 current_dwh_table_name s = ''observation_fact''
                 \<and> map_of org_row (column_name r') = Some v' \<and> \<not> isna v'
                 \<and> validate_row E s (snd (translate_heb_words E s (observation_row mc r' v'))) = Inr ()
                 \<longrightarrow> (\<exists>s'. process_row_by_observation_fact_rules E s mc org_row r' = Inr s'
                        \<and> enqueued s' ''observation_fact'' =
                            enqueued s ''observation_fact'' @
                            [fill_missing (get_columns E ''observation_fact'')
                               (snd (translate_heb_words E s (observation_row mc r' v')))]))"
proof -
  let ?st1 = "handle_exception E st org_row mc (OriginalDataFieldIsMissing (column_name r))"
  have run: "process_row_by_observation_fact_rules E st mc org_row r = Inr ?st1"
    using assms(2,3) by (rule process_rule_null)
  have obs: "enqueued ?st1 ''observation_fact'' = enqueued st ''observation_fact''"
    by (simp add: enqueued_handle_exception)
  have exc: "enqueued ?st1 ''exceptions'' =
               enqueued st ''exceptions'' @ [logged E st VNone (VStr (ustr (column_name r))) mc]"
    by (simp add: enqueued_handle_exception)
  have cont: "process_rules E st mc org_row (r # rs) = process_rules E ?st1 mc org_row rs"
    by (simp add: run)
  have total: "\<exists>st'. process_rules E st mc org_row (r # rs) = Inr st'"
    if "\<forall>r'\<in>set rs. has_key (column_name r') org_row"
    using process_rules_total [OF that, of E ?st1 mc] cont by simp
  have sib: "\<exists>s'. process_row_by_observation_fact_rules E s mc org_row r' = Inr s'
                        \<and> enqueued s' ''observation_fact'' =
                            enqueued s ''observation_fact'' @
                            [fill_missing (get_columns E ''observation_fact'')
                               (snd (translate_heb_words E s (observation_row mc r' v')))]"
    if "current_dwh_table_name s = ''observation_fact''"
      and "map_of org_row (column_name r') = Some v'" and "\<not> isna v'"
      and "validate_row E s (snd (translate_heb_words E s (observation_row mc r' v'))) = Inr ()"
    for s r' v'
  proof -
    let ?T = "translate_heb_words E s (observation_row mc r' v')"
    have "validate_row E (fst ?T) (snd ?T) = Inr ()"
      using that(4) validate_row_cong [of "fst ?T" s E "snd ?T"] by simp
    then have "enqueued (validate_and_enqueue E (fst ?T) org_row (snd ?T)) ''observation_fact'' =
               enqueued s ''observation_fact'' @
               [fill_missing (get_columns E ''observation_fact'') (snd ?T)]"
      using that(1) by (simp add: enqueued_validate_and_enqueue enqueued_translate_heb_words)
    with process_rule_value [OF that(2,3), of E s mc] show ?thesis by simp
  qed
  have total_imp: "(\<forall>r'\<in>set rs. has_key (column_name r') org_row) \<longrightarrow>
                (\<exists>st'. process_rules E st mc org_row (r # rs) = Inr st')"
    using total by blast
  have sib_all: "\<forall>s r' v'.
                 current_dwh_table_name s = ''observation_fact''
                 \<and> map_of org_row (column_name r') = Some v' \<and> \<not> isna v'
                 \<and> validate_row E s (snd (translate_heb_words E s (observation_row mc r' v'))) = Inr ()
                 \<longrightarrow> (\<exists>s'. process_row_by_observation_fact_rules E s mc org_row r' = Inr s'
                        \<and> enqueued s' ''observation_fact'' =
                            enqueued s ''observation_fact'' @
                            [fill_missing (get_columns E ''observation_fact'')
                               (snd (translate_heb_words E s (observation_row mc r' v')))])"
    using sib by blast
  have fields: "dwh_dictionary ?st1 = dwh_dictionary st" "encounters ?st1 = encounters st"
    "translate_calls ?st1 = translate_calls st" "current_dwh_table_name ?st1 = ''observation_fact''"
    using assms(1) by simp_all
  have col: "map_of (logged E st VNone (VStr (ustr (column_name r))) mc) ''org_col'' =
               Some (VStr (ustr (column_name r)))"
    by simp
  show ?thesis
    apply (rule exI [of _ ?st1])
    apply (intro conjI)
              apply (rule run)
             apply (rule obs)
            apply (rule exc)
           apply (rule col)
          apply (rule fields(1))
         apply (rule fields(2))
        apply (rule fields(3))
       apply (rule fields(4))
      apply (rule cont)
     apply (rule total_imp)
    apply (rule sib_all)
    done
qed


theorem fan_out_isolation_witness:
  "current_dwh_table_name wh_state = ''observation_fact''
   \<and> map_of [(''height'', VNone), (''weight'', VInt 70)] (column_name height_rule) = Some VNone
   \<and> isna VNone
   \<and> (\<exists>st2. process_rules wh_env wh_state enc_cols [(''height'', VNone), (''weight'', VInt 70)]
               [height_rule, weight_rule] = Inr st2
           \<and> length (enqueued st2 ''observation_fact'') = 1)"
proof -
  let ?org = "[(''height'', VNone), (''weight'', VInt 70)]"
  have cur: "current_dwh_table_name wh_state = ''observation_fact''"
    by (simp add: wh_state_def)
  have null: "map_of ?org (column_name height_rule) = Some VNone"
    by (simp add: height_rule_def rule_def)
  have na: "isna VNone" by simp
  from fan_out_isolation [OF cur null na, of wh_env enc_cols "[weight_rule]"]
  obtain st1 where
    obs: "enqueued st1 ''observation_fact'' = enqueued wh_state ''observation_fact''"
    and cur1: "current_dwh_table_name st1 = ''observation_fact''"
    and cont: "process_rules wh_env wh_state enc_cols ?org [height_rule, weight_rule] =
               process_rules wh_env st1 enc_cols ?org [weight_rule]"
    and sib: "\<forall>s r' v'.
                 current_dwh_table_name s = ''observation_fact''
                 \<and> map_of ?org (column_name r') = Some v' \<and> \<not> isna v'
                 \<and> validate_row wh_env s
                     (snd (translate_heb_words wh_env s (observation_row enc_cols r' v'))) = Inr ()
                 \<longrightarrow> (\<exists>s'. process_row_by_observation_fact_rules wh_env s enc_cols ?org r' = Inr s'
                        \<and> enqueued s' ''observation_fact'' =
                            enqueued s ''observation_fact'' @
                            [fill_missing (get_columns wh_env ''observation_fact'')
                               (snd (translate_heb_words wh_env s (observation_row enc_cols r' v')))])"
    by blast
  have w: "map_of ?org (column_name weight_rule) = Some (VInt 70)"
    by (simp add: weight_rule_def rule_def)
  have valid: "validate_row wh_env st1
                 (snd (translate_heb_words wh_env st1 (observation_row enc_cols weight_rule (VInt 70))))
               = Inr ()"
    by (simp add: validate_row_def cur1 get_not_null_columns_def translate_heb_words_def
          observation_row_def has_key_def contains_hebrew_def is_hebrew_char_def ustr_def
          enc_cols_def weight_rule_def rule_def wh_env_def wh_columns_def col_def)
  from sib cur1 w valid obtain s' where
    one: "process_row_by_observation_fact_rules wh_env st1 enc_cols ?org weight_rule = Inr s'"
    and grown: "enqueued s' ''observation_fact'' =
                  enqueued st1 ''observation_fact'' @
                  [fill_missing (get_columns wh_env ''observation_fact'')
                     (snd (translate_heb_words wh_env st1
                             (observation_row enc_cols weight_rule (VInt 70))))]"
    by force
  have "enqueued wh_state ''observation_fact'' = []"
    by (simp add: enqueued_def written_def queue_of_def wh_state_def)
  with grown obs have len: "length (enqueued s' ''observation_fact'') = 1" by simp
  have "process_rules wh_env wh_state enc_cols ?org [height_rule, weight_rule] = Inr s'"
    using cont one by simp
  with len cur null na show ?thesis by blast
qed

section \<open>Mandatory columns\<close>





section \<open>Translation cache: what a row keeps\<close>

lemma translate_items_other_key:
  "k \<notin> fst ` set items \<Longrightarrow>
   map_of (snd (translate_items E st items acc)) k = map_of acc k"
proof (induction items arbitrary: st acc)
  case Nil
  then show ?case by simp
next
  case (Cons kv items)
  obtain k0 v0 where kv: "kv = (k0, v0)" by (cases kv)
  from Cons.prems have ne: "k0 \<noteq> k" and rest: "k \<notin> fst ` set items" by (auto simp: kv)
  show ?case unfolding kv translate_items_step
    using ne by (simp add: Cons.IH [OF rest] map_of_dict_set)
qed

lemma translate_items_keys:
  "distinct (map fst acc @ map fst items) \<Longrightarrow>
   map fst (snd (translate_items E st items acc)) = map fst acc @ map fst items"
proof (induction items arbitrary: st acc)
  case Nil
  then show ?case by simp
next
  case (Cons kv items)
  obtain k0 v0 where kv: "kv = (k0, v0)" by (cases kv)
  from Cons.prems have fresh: "\<not> has_key k0 acc"
    by (auto simp: kv has_key_def map_of_eq_None_iff)
  have keys: "map fst (dict_set k0 x acc) = map fst acc @ [k0]" for x
    using fresh by (simp add: keys_dict_set)
  have d: "distinct (map fst (dict_set k0 x acc) @ map fst items)" for x
    using Cons.prems by (simp add: keys kv)
  show ?case unfolding kv translate_items_step
    by (simp add: Cons.IH [OF d] keys)
qed

lemma translate_items_plain_value:
  "distinct (map fst items) \<Longrightarrow> (k, v) \<in> set items \<Longrightarrow> \<not> is_hebrew_val v \<Longrightarrow>
   map_of (snd (translate_items E st items acc)) k = Some v"
proof (induction items arbitrary: st acc)
  case Nil
  then show ?case by simp
next
  case (Cons kv items)
  obtain k0 v0 where kv: "kv = (k0, v0)" by (cases kv)
  from Cons.prems(1) have fresh: "k0 \<notin> fst ` set items" and d: "distinct (map fst items)"
    by (auto simp: kv)
  show ?case
  proof (cases "(k, v) = (k0, v0)")
    case True
    with Cons.prems(3) fresh show ?thesis
      unfolding kv translate_items_step
      by (simp add: translate_items_other_key map_of_dict_set)
  next
    case False
    with Cons.prems(2) have "(k, v) \<in> set items" by (auto simp: kv)
    from Cons.IH [OF d this Cons.prems(3)] show ?thesis
      unfolding kv translate_items_step by simp
  qed
qed

lemma dictionary_translate_word_hit:
  "map_of (loaded_dictionary E (fst (translate_word E st s))) (VStr s) =
     Some (snd (translate_word E st s))"
  by (simp add: translate_word_def Let_def map_add_Some_iff split: option.splits)

lemma dictionary_translate_word_stable:
  "map_of (loaded_dictionary E st) x = Some y \<Longrightarrow>
   map_of (loaded_dictionary E (fst (translate_word E st s))) x = Some y"
  by (auto simp: translate_word_def Let_def map_add_Some_iff split: option.splits)

lemma dictionary_translate_items_stable:
  "map_of (loaded_dictionary E st) x = Some y \<Longrightarrow>
   map_of (loaded_dictionary E (fst (translate_items E st items acc))) x = Some y"
proof (induction items arbitrary: st acc)
  case Nil
  then show ?case by simp
next
  case (Cons kv items)
  obtain k0 v0 where kv: "kv = (k0, v0)" by (cases kv)
  show ?case unfolding kv translate_items_step
    using Cons.prems by (simp add: Cons.IH dictionary_translate_word_stable)
qed

lemma translate_items_step_ex:
  "\<exists>st1 acc1. translate_items E st (kv # items) acc = translate_items E st1 items acc1"
proof -
  obtain k v where kv: "kv = (k, v)" by (cases kv)
  show ?thesis unfolding kv translate_items_step by (cases "is_hebrew_val v") auto
qed

lemma translate_items_hebrew_value:
  "distinct (map fst items) \<Longrightarrow> (k, VStr s) \<in> set items \<Longrightarrow> contains_hebrew s \<Longrightarrow>
   map_of (snd (translate_items E st items acc)) k =
     map_of (loaded_dictionary E (fst (translate_items E st items acc))) (VStr s)
   \<and> map_of (snd (translate_items E st items acc)) k \<noteq> None"
proof (induction items arbitrary: st acc)
  case Nil
  then show ?case by simp
next
  case (Cons kv items)
  obtain k0 v0 where kv: "kv = (k0, v0)" by (cases kv)
  from Cons.prems(1) have fresh: "k0 \<notin> fst ` set items" and d: "distinct (map fst items)"
    by (auto simp: kv)
  show ?case
  proof (cases "(k, VStr s) = (k0, v0)")
    case True
    let ?st1 = "fst (translate_word E st s)"
    let ?en = "snd (translate_word E st s)"
    have hit: "map_of (loaded_dictionary E ?st1) (VStr s) = Some ?en"
      by (rule dictionary_translate_word_hit)
    have "map_of (loaded_dictionary E (fst (translate_items E ?st1 items (dict_set k ?en acc))))
            (VStr s) = Some ?en"
      using hit by (rule dictionary_translate_items_stable)
    moreover have "map_of (snd (translate_items E ?st1 items (dict_set k ?en acc))) k = Some ?en"
      using fresh True by (simp add: translate_items_other_key map_of_dict_set)
    ultimately show ?thesis
      using True Cons.prems(3) unfolding kv translate_items_step by auto
  next
    case False
    with Cons.prems(2) have in_rest: "(k, VStr s) \<in> set items" by (auto simp: kv)
    obtain st1 acc1 where
      step: "translate_items E st (kv # items) acc = translate_items E st1 items acc1"
      using translate_items_step_ex by blast
    show ?thesis unfolding step by (rule Cons.IH [OF d in_rest Cons.prems(3)])
  qed
qed

text \<open>
  C9. \<^verbatim>\<open>translate_heb_words\<close> returns a row with the keys of its input, in the same
  order. A value that is not a string with a Hebrew character comes back unchanged; a
  Hebrew string is replaced by its entry in the dictionary as the call leaves it.
\<close>

theorem translate_heb_words_frame:
  assumes "distinct (map fst r)" and "translate_heb_words E st r = (st', r')"
  shows "map fst r' = map fst r
       \<and> (\<forall>kv\<in>set r. \<not> is_hebrew_val (snd kv) \<longrightarrow> map_of r' (fst kv) = Some (snd kv))
       \<and> (\<forall>kv\<in>set r. is_hebrew_val (snd kv) \<longrightarrow>
            map_of r' (fst kv) = map_of (loaded_dictionary E st') (snd kv)
            \<and> map_of r' (fst kv) \<noteq> None)"
proof -
  have st': "st' = fst (translate_items E st r [])" and r': "r' = snd (translate_items E st r [])"
    using assms(2) by (simp_all add: translate_heb_words_def)
  have keys: "map fst r' = map fst r"
    using translate_items_keys [of "[]" r E st] assms(1) by (simp add: r')
  have plain: "map_of r' (fst kv) = Some (snd kv)"
    if "kv \<in> set r" "\<not> is_hebrew_val (snd kv)" for kv
    using translate_items_plain_value [OF assms(1), of "fst kv" "snd kv" E st "[]"] that
    by (simp add: r')
  have heb: "map_of r' (fst kv) = map_of (loaded_dictionary E st') (snd kv)
             \<and> map_of r' (fst kv) \<noteq> None"
    if "kv \<in> set r" "is_hebrew_val (snd kv)" for kv
  proof -
    from that(2) obtain s where s: "snd kv = VStr s" "contains_hebrew s"
      by (cases "snd kv") auto
    have "kv = (fst kv, VStr s)" using s(1) by (cases kv) simp
    with that(1) have in_r: "(fst kv, VStr s) \<in> set r" by simp
    show ?thesis unfolding r' st' s(1)
      by (rule translate_items_hebrew_value [OF assms(1) in_r s(2)])
  qed
  from keys plain heb show ?thesis by blast
qed

theorem translate_heb_words_frame_witness:
  "distinct (map fst [(''patient_num'', VInt 7), (''tval_char'', VStr heb_pain),
                      (''concept_cd'', VStr (ustr ''COMPLAINT''))])
   \<and> (\<exists>st' r'. translate_heb_words wh_env wh_state
                 [(''patient_num'', VInt 7), (''tval_char'', VStr heb_pain),
                  (''concept_cd'', VStr (ustr ''COMPLAINT''))] = (st', r')
         \<and> map fst r' = [''patient_num'', ''tval_char'', ''concept_cd'']
         \<and> map_of r' ''patient_num'' = Some (VInt 7)
         \<and> map_of r' ''concept_cd'' = Some (VStr (ustr ''COMPLAINT''))
         \<and> map_of r' ''tval_char'' = map_of (loaded_dictionary wh_env st') (VStr heb_pain))"
proof -
  let ?r = "[(''patient_num'', VInt 7), (''tval_char'', VStr heb_pain),
             (''concept_cd'', VStr (ustr ''COMPLAINT''))]"
  have d: "distinct (map fst ?r)" by simp
  obtain st' r' where t: "translate_heb_words wh_env wh_state ?r = (st', r')"
    by (cases "translate_heb_words wh_env wh_state ?r")
  have h: "is_hebrew_val (VStr heb_pain)" "\<not> is_hebrew_val (VStr (ustr ''COMPLAINT''))"
    by (simp_all add: contains_hebrew_def is_hebrew_char_def heb_pain_def ustr_def)
  from translate_heb_words_frame [OF d t] h
  have "map fst r' = [''patient_num'', ''tval_char'', ''concept_cd'']
         \<and> map_of r' ''patient_num'' = Some (VInt 7)
         \<and> map_of r' ''concept_cd'' = Some (VStr (ustr ''COMPLAINT''))
         \<and> map_of r' ''tval_char'' = map_of (loaded_dictionary wh_env st') (VStr heb_pain)"
    by simp
  with d t show ?thesis by (intro conjI exI [of _ st'] exI [of _ r']) simp_all
qed

section \<open>Translation cache: calls of the service\<close>

lemma dictionary_translate_word:
  "map_of (loaded_dictionary E (fst (translate_word E st s))) x =
     (case map_of (loaded_dictionary E st) x of
        Some y \<Rightarrow> Some y
      | None \<Rightarrow> if x = VStr s then Some (VStr (svc_translate E s)) else None)"
  by (auto simp: translate_word_def Let_def map_add_def split: option.splits)

lemma calls_translate_word:
  "translate_calls (fst (translate_word E st s)) =
     translate_calls st @ (if map_of (loaded_dictionary E st) (VStr s) = None then [s] else [])"
  by (simp add: translate_word_def Let_def split: option.splits)

lemma calls_translate_items_upper:
  "count_list (translate_calls (fst (translate_items E st items acc))) x \<le>
     count_list (translate_calls st) x +
     (if map_of (loaded_dictionary E st) (VStr x) = None then 1 else 0)"
proof (induction items arbitrary: st acc)
  case Nil
  then show ?case by simp
next
  case (Cons kv items)
  obtain k v where kv: "kv = (k, v)" by (cases kv)
  show ?case
  proof (cases "is_hebrew_val v")
    case False
    then show ?thesis unfolding kv translate_items_step using Cons.IH [of st] by simp
  next
    case True
    then obtain s where v: "v = VStr s" by (cases v) auto
    let ?st1 = "fst (translate_word E st s)"
    let ?acc1 = "dict_set k (snd (translate_word E st s)) acc"
    have step: "translate_items E st (kv # items) acc = translate_items E ?st1 items ?acc1"
      unfolding kv translate_items_step using True by (simp add: v)
    have "count_list (translate_calls ?st1) x +
            (if map_of (loaded_dictionary E ?st1) (VStr x) = None then 1 else 0) \<le>
          count_list (translate_calls st) x +
            (if map_of (loaded_dictionary E st) (VStr x) = None then 1 else 0)"
      by (auto simp: calls_translate_word dictionary_translate_word split: option.splits)
    with Cons.IH [of ?st1 ?acc1] show ?thesis unfolding step by linarith
  qed
qed

lemma calls_translate_items_lower:
  "count_list (translate_calls st) x \<le>
     count_list (translate_calls (fst (translate_items E st items acc))) x"
proof (induction items arbitrary: st acc)
  case Nil
  then show ?case by simp
next
  case (Cons kv items)
  obtain k v where kv: "kv = (k, v)" by (cases kv)
  show ?case
  proof (cases "is_hebrew_val v")
    case False
    then show ?thesis unfolding kv translate_items_step using Cons.IH [of st] by simp
  next
    case True
    then obtain s where v: "v = VStr s" by (cases v) auto
    let ?st1 = "fst (translate_word E st s)"
    let ?acc1 = "dict_set k (snd (translate_word E st s)) acc"
    have step: "translate_items E st (kv # items) acc = translate_items E ?st1 items ?acc1"
      unfolding kv translate_items_step using True by (simp add: v)
    have "count_list (translate_calls st) x \<le> count_list (translate_calls ?st1) x"
      by (simp add: calls_translate_word)
    with Cons.IH [of ?st1 ?acc1] show ?thesis unfolding step by linarith
  qed
qed

lemma enqueued_translate_items_grows:
  "set (enqueued st t) \<subseteq> set (enqueued (fst (translate_items E st items acc)) t)"
proof (induction items arbitrary: st acc)
  case Nil
  then show ?case by simp
next
  case (Cons kv items)
  obtain k v where kv: "kv = (k, v)" by (cases kv)
  show ?case
  proof (cases "is_hebrew_val v")
    case False
    then show ?thesis unfolding kv translate_items_step using Cons.IH [of st] by simp
  next
    case True
    then obtain s where v: "v = VStr s" by (cases v) auto
    let ?st1 = "fst (translate_word E st s)"
    let ?acc1 = "dict_set k (snd (translate_word E st s)) acc"
    have step: "translate_items E st (kv # items) acc = translate_items E ?st1 items ?acc1"
      unfolding kv translate_items_step using True by (simp add: v)
    have "set (enqueued st t) \<subseteq> set (enqueued ?st1 t)"
      by (simp add: enqueued_translate_word)
    with Cons.IH [of ?st1 ?acc1] show ?thesis unfolding step by blast
  qed
qed

lemma translate_items_miss:
  "(k, VStr h) \<in> set items \<Longrightarrow> contains_hebrew h \<Longrightarrow>
   map_of (loaded_dictionary E st) (VStr h) = None \<Longrightarrow>
   map_of (loaded_dictionary E (fst (translate_items E st items acc))) (VStr h) =
     Some (VStr (svc_translate E h))
   \<and> dictionary_row E h \<in> set (enqueued (fst (translate_items E st items acc)) ''dictionary'')
   \<and> count_list (translate_calls (fst (translate_items E st items acc))) h =
       count_list (translate_calls st) h + 1"
proof (induction items arbitrary: st acc)
  case Nil
  then show ?case by simp
next
  case (Cons kv items)
  obtain k0 v0 where kv: "kv = (k0, v0)" by (cases kv)
  show ?case
  proof (cases "is_hebrew_val v0")
    case False
    with Cons.prems(1,2) have in_rest: "(k, VStr h) \<in> set items" by (auto simp: kv)
    have step: "translate_items E st (kv # items) acc = translate_items E st items (dict_set k0 v0 acc)"
      unfolding kv translate_items_step using False by simp
    show ?thesis unfolding step by (rule Cons.IH [OF in_rest Cons.prems(2,3)])
  next
    case True
    then obtain s where v0: "v0 = VStr s" by (cases v0) auto
    let ?st1 = "fst (translate_word E st s)"
    let ?acc1 = "dict_set k0 (snd (translate_word E st s)) acc"
    let ?st' = "fst (translate_items E ?st1 items ?acc1)"
    have step: "translate_items E st (kv # items) acc = translate_items E ?st1 items ?acc1"
      unfolding kv translate_items_step using True by (simp add: v0)
    show ?thesis
    proof (cases "s = h")
      case True
      have d1: "map_of (loaded_dictionary E ?st1) (VStr h) = Some (VStr (svc_translate E h))"
        using Cons.prems(3) True by (simp add: dictionary_translate_word)
      have q1: "dictionary_row E h \<in> set (enqueued ?st1 ''dictionary'')"
        using Cons.prems(3) True by (simp add: enqueued_translate_word dictionary_row_def)
      have c1: "count_list (translate_calls ?st1) h = count_list (translate_calls st) h + 1"
        using Cons.prems(3) True by (simp add: calls_translate_word)
      have d: "map_of (loaded_dictionary E ?st') (VStr h) = Some (VStr (svc_translate E h))"
        using d1 by (rule dictionary_translate_items_stable)
      have q: "dictionary_row E h \<in> set (enqueued ?st' ''dictionary'')"
        using q1 enqueued_translate_items_grows [of ?st1 "''dictionary''" E items ?acc1] by blast
      have "count_list (translate_calls ?st') h \<le> count_list (translate_calls ?st1) h"
        using calls_translate_items_upper [of E ?st1 items ?acc1 h] d1 by simp
      with calls_translate_items_lower [of ?st1 h E items ?acc1] c1
      have c: "count_list (translate_calls ?st') h = count_list (translate_calls st) h + 1"
        by linarith
      from d q c show ?thesis unfolding step by simp
    next
      case False
      with Cons.prems(1) have in_rest: "(k, VStr h) \<in> set items" by (auto simp: kv v0)
      have d1: "map_of (loaded_dictionary E ?st1) (VStr h) = None"
        using Cons.prems(3) False by (simp add: dictionary_translate_word)
      have c1: "count_list (translate_calls ?st1) h = count_list (translate_calls st) h"
        using False by (simp add: calls_translate_word)
      from Cons.IH [OF in_rest Cons.prems(2) d1, of ?acc1] c1 show ?thesis
        unfolding step by simp
    qed
  qed
qed

text \<open>Every step of a run treats the translation cache as \<open>cache_step\<close> says.\<close>

lemma cache_step_same:
  "loaded_dictionary E st' = loaded_dictionary E st \<Longrightarrow> translate_calls st' = translate_calls st \<Longrightarrow>
   cache_step E st st'"
  by (simp add: cache_step_def)

lemma cache_step_fields:
  "dwh_dictionary st' = dwh_dictionary st \<Longrightarrow> translate_calls st' = translate_calls st \<Longrightarrow>
   cache_step E st st'"
  by (simp add: cache_step_def loaded_dictionary_def)

lemma cache_step_trans:
  assumes "cache_step E st st1" "cache_step E st1 st2"
  shows "cache_step E st st2"
proof -
  have stable: "map_of (loaded_dictionary E st2) x = Some y"
    if "map_of (loaded_dictionary E st) x = Some y" for x y
    using assms that unfolding cache_step_def by blast
  have calls: "count_list (translate_calls st2) h = count_list (translate_calls st) h \<or>
           (map_of (loaded_dictionary E st) (VStr h) = None \<and>
            map_of (loaded_dictionary E st2) (VStr h) \<noteq> None \<and>
            count_list (translate_calls st2) h = count_list (translate_calls st) h + 1)" for h
  proof -
    from assms(1) have s1: "\<And>y. map_of (loaded_dictionary E st) (VStr h) = Some y \<Longrightarrow>
                               map_of (loaded_dictionary E st1) (VStr h) = Some y"
      and c1: "count_list (translate_calls st1) h = count_list (translate_calls st) h \<or>
           (map_of (loaded_dictionary E st) (VStr h) = None \<and>
            map_of (loaded_dictionary E st1) (VStr h) \<noteq> None \<and>
            count_list (translate_calls st1) h = count_list (translate_calls st) h + 1)"
      unfolding cache_step_def by blast+
    from assms(2) have s2: "\<And>y. map_of (loaded_dictionary E st1) (VStr h) = Some y \<Longrightarrow>
                               map_of (loaded_dictionary E st2) (VStr h) = Some y"
      and c2: "count_list (translate_calls st2) h = count_list (translate_calls st1) h \<or>
           (map_of (loaded_dictionary E st1) (VStr h) = None \<and>
            map_of (loaded_dictionary E st2) (VStr h) \<noteq> None \<and>
            count_list (translate_calls st2) h = count_list (translate_calls st1) h + 1)"
      unfolding cache_step_def by blast+
    show ?thesis
    proof (cases "map_of (loaded_dictionary E st) (VStr h)")
      case (Some y)
      with s1 have "map_of (loaded_dictionary E st1) (VStr h) = Some y" by simp
      with c1 c2 Some show ?thesis by auto
    next
      case None
      show ?thesis
      proof (cases "map_of (loaded_dictionary E st1) (VStr h)")
        case (Some y)
        with s2 have "map_of (loaded_dictionary E st2) (VStr h) = Some y" by simp
        with c1 c2 Some None show ?thesis by auto
      next
        case None1: None
        with c1 c2 None show ?thesis by auto
      qed
    qed
  qed
  show ?thesis unfolding cache_step_def using stable calls by blast
qed

lemma cache_step_translate_word: "cache_step E st (fst (translate_word E st s))"
  unfolding cache_step_def
  by (auto simp: dictionary_translate_word calls_translate_word split: option.splits)

lemma cache_step_translate_items: "cache_step E st (fst (translate_items E st items acc))"
proof (induction items arbitrary: st acc)
  case Nil
  then show ?case by (simp add: cache_step_same)
next
  case (Cons kv items)
  obtain k v where kv: "kv = (k, v)" by (cases kv)
  show ?case
  proof (cases "is_hebrew_val v")
    case False
    then show ?thesis unfolding kv translate_items_step using Cons.IH [of st] by simp
  next
    case True
    then obtain s where v: "v = VStr s" by (cases v) auto
    let ?st1 = "fst (translate_word E st s)"
    let ?acc1 = "dict_set k (snd (translate_word E st s)) acc"
    have step: "translate_items E st (kv # items) acc = translate_items E ?st1 items ?acc1"
      unfolding kv translate_items_step using True by (simp add: v)
    show ?thesis unfolding step
      using cache_step_translate_word Cons.IH by (rule cache_step_trans)
  qed
qed

lemma cache_step_translate_heb_words: "cache_step E st (fst (translate_heb_words E st r))"
  by (simp add: translate_heb_words_def cache_step_translate_items)

lemma cache_step_validate_and_enqueue: "cache_step E st (validate_and_enqueue E st org_row r)"
  by (rule cache_step_fields) simp_all

lemma cache_step_handle_exception: "cache_step E st (handle_exception E st org_row r e)"
  by (rule cache_step_fields) simp_all

lemma cache_step_add_row: "cache_step E st (add_row_to_batch E st r t)"
  by (rule cache_step_fields) simp_all

lemma cache_step_translate_then_enqueue:
  "cache_step E st (validate_and_enqueue E (fst (translate_heb_words E st r)) org_row
                      (snd (translate_heb_words E st r)))"
  using cache_step_translate_heb_words cache_step_validate_and_enqueue by (rule cache_step_trans)

lemma cache_step_add_encounter_num:
  "add_encounter_num E st mc = Inr (st', mc') \<Longrightarrow> cache_step E st st'"
  by (rule cache_step_fields)
     (auto simp: add_encounter_num_def Let_def split: option.splits sum.splits)

lemma cache_step_concept: "cache_step E st (concept_dimension_process E st mc org_row)"
  by (simp add: concept_dimension_process_def Let_def case_prod_beta cache_step_translate_then_enqueue)

lemma cache_step_patient:
  "patient_dimension_process E st mc org_row cat = Inr st' \<Longrightarrow> cache_step E st st'"
  by (auto simp: patient_dimension_process_def Let_def case_prod_beta cache_step_translate_then_enqueue
           split: sum.splits)

lemma cache_step_rule:
  assumes "process_row_by_observation_fact_rules E st mc org_row r = Inr st'"
  shows "cache_step E st st'"
  using assms
proof (cases rule: process_rule_cases)
  case (null v)
  then show ?thesis by (simp add: cache_step_handle_exception)
next
  case (val v)
  then show ?thesis by (simp add: cache_step_translate_then_enqueue)
qed

lemma cache_step_rules:
  "process_rules E st mc org_row rs = Inr st' \<Longrightarrow> cache_step E st st'"
proof (induction rs arbitrary: st)
  case Nil
  then show ?case by (simp add: cache_step_same)
next
  case (Cons r rs)
  from Cons.prems obtain st1 where
    one: "process_row_by_observation_fact_rules E st mc org_row r = Inr st1"
    and rest: "process_rules E st1 mc org_row rs = Inr st'"
    by (auto split: sum.splits)
  from cache_step_rule [OF one] Cons.IH [OF rest] show ?case by (rule cache_step_trans)
qed

lemma cache_step_observation:
  assumes "observation_fact_process E st mc org_row cat = Inr st'"
  shows "cache_step E st st'"
proof -
  from assms obtain st1 mc1 st2 where
    enc: "add_encounter_num E st mc = Inr (st1, mc1)"
    and a: "process_rules E st1 mc1 org_row (no_modifier_rows cat) = Inr st2"
    and b: "process_rules E st2 mc1 org_row (modifier_rows cat) = Inr st'"
    by (auto simp: observation_fact_process_def split: sum.splits)
  from cache_step_rules [OF a] cache_step_rules [OF b] have "cache_step E st1 st'"
    by (rule cache_step_trans)
  with cache_step_add_encounter_num [OF enc] show ?thesis by (rule cache_step_trans)
qed

lemma cache_step_dispatch:
  "dispatch_table E st mc org_row cat = Inr st' \<Longrightarrow> cache_step E st st'"
  by (auto simp: dispatch_table_def cache_step_concept cache_step_same split: if_splits
           dest: cache_step_patient cache_step_observation)

lemma cache_step_dwh_tables:
  "process_dwh_tables E st org_row cat ts = Inr st' \<Longrightarrow> cache_step E st st'"
proof (induction ts arbitrary: st)
  case Nil
  then show ?case by (simp add: cache_step_same)
next
  case (Cons t ts)
  let ?st1 = "st\<lparr>current_dwh_table_name := t\<rparr>"
  have 1: "cache_step E st ?st1" by (rule cache_step_fields) simp_all
  show ?case
  proof (cases "get_mandatory_cols E (filter (\<lambda>r. target_table r = t) cat) org_row")
    case (Inr mc)
    with Cons.prems obtain st2 where
      d: "dispatch_table E ?st1 mc org_row (filter (\<lambda>r. target_table r = t) cat) = Inr st2"
      and rest: "process_dwh_tables E st2 org_row cat ts = Inr st'"
      by (auto simp: Let_def split: sum.splits)
    from cache_step_dispatch [OF d] Cons.IH [OF rest] have "cache_step E ?st1 st'"
      by (rule cache_step_trans)
    with 1 show ?thesis by (rule cache_step_trans)
  next
    case (Inl e)
    with Cons.prems obtain c where e: "e = MandatoryFieldMissing c"
      by (cases e) (simp_all add: Let_def)
    let ?st2 = "handle_exception E ?st1 org_row [] (MandatoryFieldMissing c)"
    have rest: "process_dwh_tables E ?st2 org_row cat ts = Inr st'"
      using Cons.prems Inl e by (simp add: Let_def)
    from cache_step_handle_exception Cons.IH [OF rest] have "cache_step E ?st1 st'"
      by (rule cache_step_trans)
    with 1 show ?thesis by (rule cache_step_trans)
  qed
qed

lemma cache_step_org_row:
  "process_org_row_into_dwh E cat st org_row = Inr st' \<Longrightarrow> cache_step E st st'"
  by (auto simp: process_org_row_into_dwh_def Let_def dest: cache_step_dwh_tables)

lemma cache_step_org_rows:
  "process_org_rows E cat st rows = Inr st' \<Longrightarrow> cache_step E st st'"
proof (induction rows arbitrary: st)
  case Nil
  then show ?case by (simp add: cache_step_same)
next
  case (Cons r rows)
  from Cons.prems obtain st1 where
    one: "process_org_row_into_dwh E cat st r = Inr st1"
    and rest: "process_org_rows E cat st1 rows = Inr st'"
    by (auto split: sum.splits)
  from cache_step_org_row [OF one] Cons.IH [OF rest] show ?case by (rule cache_step_trans)
qed

lemma cache_step_org_tables:
  "process_org_tables E cat st tabs = Inr st' \<Longrightarrow> cache_step E st st'"
proof (induction tabs arbitrary: st)
  case Nil
  then show ?case by (simp add: cache_step_same)
next
  case (Cons nt tabs)
  obtain n t where nt: "nt = (n, t)" by (cases nt)
  let ?st0 = "st\<lparr>current_org_table_name := n\<rparr>"
  have 0: "cache_step E st ?st0" by (rule cache_step_fields) simp_all
  from Cons.prems obtain st1 where
    a: "process_org_rows E cat ?st0 t = Inr st1"
    and b: "process_org_tables E cat st1 tabs = Inr st'"
    by (auto simp: nt split: sum.splits)
  from cache_step_org_rows [OF a] Cons.IH [OF b] have "cache_step E ?st0 st'"
    by (rule cache_step_trans)
  with 0 show ?case by (rule cache_step_trans)
qed

lemma cache_step_run_step: "run_step E st st' \<Longrightarrow> cache_step E st st'"
proof (induction rule: run_step.induct)
  case (translated st r st' r')
  then show ?case using cache_step_translate_heb_words [of E st r] by simp
next
  case (flush_all st)
  show ?case by (rule cache_step_fields) (simp_all add: save_all_rows_in_que_def)
next
  case (org_table st n)
  show ?case by (rule cache_step_fields) simp_all
next
  case (dwh_table st t)
  show ?case by (rule cache_step_fields) simp_all
qed (simp_all add: cache_step_add_row cache_step_handle_exception cache_step_validate_and_enqueue
       cache_step_add_encounter_num cache_step_concept cache_step_patient cache_step_rule
       cache_step_observation cache_step_org_row cache_step_org_tables)

lemma cache_step_run_steps: "rtranclp (run_step E) st st' \<Longrightarrow> cache_step E st st'"
proof (induction rule: rtranclp_induct)
  case base
  show ?case by (simp add: cache_step_same)
next
  case (step y z)
  from step.IH cache_step_run_step [OF step.hyps(2)] show ?case by (rule cache_step_trans)
qed

text \<open>Over a whole run every text is sent to the service at most once.\<close>

lemma run_sends_each_text_at_most_once:
  assumes "process_org_tables_into_dwh E cat st tabs = Inr st'"
  shows "count_list (translate_calls st') h \<le> count_list (translate_calls st) h + 1
       \<and> (map_of (loaded_dictionary E st) (VStr h) \<noteq> None \<longrightarrow>
            count_list (translate_calls st') h = count_list (translate_calls st) h)"
proof -
  from assms obtain st1 where run: "process_org_tables E cat st tabs = Inr st1"
    and st': "st' = save_all_rows_in_que st1"
    by (auto simp: process_org_tables_into_dwh_def split: sum.splits)
  have "cache_step E st1 st'" unfolding st'
    by (rule cache_step_fields) (simp_all add: save_all_rows_in_que_def)
  with cache_step_org_tables [OF run] have "cache_step E st st'" by (rule cache_step_trans)
  then show ?thesis unfolding cache_step_def by (auto dest: spec [of _ h])
qed

text \<open>
  C8. A Hebrew text occurs in two rows translated in one run, any steps of the run lying
  between the two translations. The translation service is called for the text at most
  once over all of it, and not at all after the first translation; both rows receive the
  same translation, the dictionary's entry. If the text was not in the dictionary
  before, the first translation stores the service's answer in the in-memory dictionary
  and enqueues the pair for the dictionary table. And over a whole run from the same
  state the service is called for the text at most once.
\<close>

theorem translation_called_at_most_once:
  assumes heb: "contains_hebrew h"
    and in1: "(k1, VStr h) \<in> set r1" and in2: "(k2, VStr h) \<in> set r2"
    and d1: "distinct (map fst r1)" and d2: "distinct (map fst r2)"
    and t1: "translate_heb_words E st r1 = (st1, r1')"
    and between: "rtranclp (run_step E) st1 sm"
    and t2: "translate_heb_words E sm r2 = (st2, r2')"
  shows "count_list (translate_calls st2) h \<le> count_list (translate_calls st) h + 1
       \<and> count_list (translate_calls st2) h = count_list (translate_calls st1) h
       \<and> map_of r2' k2 = map_of r1' k1
       \<and> map_of r1' k1 = map_of (loaded_dictionary E st1) (VStr h)
       \<and> map_of r1' k1 \<noteq> None
       \<and> (map_of (loaded_dictionary E st) (VStr h) = None \<longrightarrow>
            map_of (loaded_dictionary E st1) (VStr h) = Some (VStr (svc_translate E h))
            \<and> dictionary_row E h \<in> set (enqueued st1 ''dictionary'')
            \<and> count_list (translate_calls st1) h = count_list (translate_calls st) h + 1)
       \<and> (\<forall>cat tabs s'. process_org_tables_into_dwh E cat st tabs = Inr s' \<longrightarrow>
            count_list (translate_calls s') h \<le> count_list (translate_calls st) h + 1)"
proof -
  have st1: "st1 = fst (translate_items E st r1 [])" and r1': "r1' = snd (translate_items E st r1 [])"
    using t1 by (simp_all add: translate_heb_words_def)
  have st2: "st2 = fst (translate_items E sm r2 [])" and r2': "r2' = snd (translate_items E sm r2 [])"
    using t2 by (simp_all add: translate_heb_words_def)
  have both1: "map_of r1' k1 = map_of (loaded_dictionary E st1) (VStr h) \<and> map_of r1' k1 \<noteq> None"
    unfolding st1 r1' by (rule translate_items_hebrew_value [OF d1 in1 heb])
  then have v1: "map_of r1' k1 = map_of (loaded_dictionary E st1) (VStr h)"
    and some1: "map_of r1' k1 \<noteq> None"
    by blast+
  from some1 v1 obtain en where en: "map_of (loaded_dictionary E st1) (VStr h) = Some en"
    by auto
  have mid: "cache_step E st1 sm" using between by (rule cache_step_run_steps)
  have en_m: "map_of (loaded_dictionary E sm) (VStr h) = Some en"
    using mid en unfolding cache_step_def by blast
  have calls_m: "count_list (translate_calls sm) h = count_list (translate_calls st1) h"
    using mid en unfolding cache_step_def by (auto dest: spec [of _ h])
  have stable: "map_of (loaded_dictionary E st2) (VStr h) = Some en"
    unfolding st2 using en_m by (rule dictionary_translate_items_stable)
  have "map_of r2' k2 = map_of (loaded_dictionary E st2) (VStr h) \<and> map_of r2' k2 \<noteq> None"
    unfolding st2 r2' by (rule translate_items_hebrew_value [OF d2 in2 heb])
  then have v2: "map_of r2' k2 = map_of (loaded_dictionary E st2) (VStr h)"
    by blast
  have same: "map_of r2' k2 = map_of r1' k1"
    using v1 v2 en stable by simp
  have "count_list (translate_calls st2) h \<le> count_list (translate_calls sm) h"
    using calls_translate_items_upper [of E sm r2 "[]" h] en_m by (simp add: st2)
  moreover have "count_list (translate_calls sm) h \<le> count_list (translate_calls st2) h"
    unfolding st2 by (rule calls_translate_items_lower)
  ultimately have second: "count_list (translate_calls st2) h = count_list (translate_calls st1) h"
    using calls_m by simp
  have "count_list (translate_calls st1) h \<le> count_list (translate_calls st) h + 1"
    using calls_translate_items_upper [of E st r1 "[]" h] by (simp add: st1 split: if_splits)
  with second have once: "count_list (translate_calls st2) h \<le> count_list (translate_calls st) h + 1"
    by simp
  have miss: "map_of (loaded_dictionary E st) (VStr h) = None \<longrightarrow>
            map_of (loaded_dictionary E st1) (VStr h) = Some (VStr (svc_translate E h))
            \<and> dictionary_row E h \<in> set (enqueued st1 ''dictionary'')
            \<and> count_list (translate_calls st1) h = count_list (translate_calls st) h + 1"
    unfolding st1 using translate_items_miss [OF in1 heb, of E st "[]"] by blast
  have run: "\<forall>cat tabs s'. process_org_tables_into_dwh E cat st tabs = Inr s' \<longrightarrow>
            count_list (translate_calls s') h \<le> count_list (translate_calls st) h + 1"
    using run_sends_each_text_at_most_once by blast
  show ?thesis
    apply (intro conjI)
          apply (rule once)
         apply (rule second)
        apply (rule same)
       apply (rule v1)
      apply (rule some1)
     apply (rule miss)
    apply (rule run)
    done
qed

theorem translation_called_at_most_once_witness:
  "contains_hebrew heb_pain
   \<and> (''tval_char'', VStr heb_pain) \<in> set [(''patient_num'', VInt 7), (''tval_char'', VStr heb_pain)]
   \<and> (''name_char'', VStr heb_pain) \<in> set [(''name_char'', VStr heb_pain)]
   \<and> distinct (map fst [(''patient_num'', VInt 7), (''tval_char'', VStr heb_pain)])
   \<and> distinct (map fst [(''name_char'', VStr heb_pain)])
   \<and> map_of (loaded_dictionary wh_env wh_state) (VStr heb_pain) = None
   \<and> (\<exists>st1 r1' sm st2 r2'.
         translate_heb_words wh_env wh_state
           [(''patient_num'', VInt 7), (''tval_char'', VStr heb_pain)] = (st1, r1')
         \<and> sm = (validate_and_enqueue wh_env st1 [] r1')\<lparr>current_dwh_table_name := ''concept_dimension''\<rparr>
         \<and> rtranclp (run_step wh_env) st1 sm
         \<and> translate_heb_words wh_env sm [(''name_char'', VStr heb_pain)] = (st2, r2')
         \<and> count_list (translate_calls st2) heb_pain = 1
         \<and> map_of r2' ''name_char'' = Some (VStr (ustr ''pain''))
         \<and> map_of r1' ''tval_char'' = Some (VStr (ustr ''pain'')))"
proof -
  let ?r1 = "[(''patient_num'', VInt 7), (''tval_char'', VStr heb_pain)]"
  let ?r2 = "[(''name_char'', VStr heb_pain)]"
  have heb: "contains_hebrew heb_pain"
    by (simp add: contains_hebrew_def is_hebrew_char_def heb_pain_def)
  have in1: "(''tval_char'', VStr heb_pain) \<in> set ?r1" by simp
  have in2: "(''name_char'', VStr heb_pain) \<in> set ?r2" by simp
  have d1: "distinct (map fst ?r1)" by simp
  have d2: "distinct (map fst ?r2)" by simp
  have none: "map_of (loaded_dictionary wh_env wh_state) (VStr heb_pain) = None"
    by (simp add: loaded_dictionary_def wh_env_def wh_state_def)
  have calls: "count_list (translate_calls wh_state) heb_pain = 0"
    by (simp add: wh_state_def)
  have svc: "svc_translate wh_env heb_pain = ustr ''pain''"
    by (simp add: wh_env_def)
  obtain st1 r1' where t1: "translate_heb_words wh_env wh_state ?r1 = (st1, r1')"
    by (cases "translate_heb_words wh_env wh_state ?r1")
  define sm where "sm = (validate_and_enqueue wh_env st1 [] r1')
                          \<lparr>current_dwh_table_name := ''concept_dimension''\<rparr>"
  have "run_step wh_env st1 (validate_and_enqueue wh_env st1 [] r1')"
    by (rule run_step.validated)
  moreover have "run_step wh_env (validate_and_enqueue wh_env st1 [] r1') sm"
    unfolding sm_def by (rule run_step.dwh_table)
  ultimately have between: "rtranclp (run_step wh_env) st1 sm"
    by (rule rtranclp.rtrancl_into_rtrancl [OF r_into_rtranclp])
  obtain st2 r2' where t2: "translate_heb_words wh_env sm ?r2 = (st2, r2')"
    by (cases "translate_heb_words wh_env sm ?r2")
  from translation_called_at_most_once [OF heb in1 in2 d1 d2 t1 between t2] none calls svc
  have "count_list (translate_calls st2) heb_pain = 1
         \<and> map_of r2' ''name_char'' = Some (VStr (ustr ''pain''))
         \<and> map_of r1' ''tval_char'' = Some (VStr (ustr ''pain''))"
    by simp
  with t1 t2 between sm_def have "\<exists>st1 r1' sm st2 r2'.
         translate_heb_words wh_env wh_state ?r1 = (st1, r1')
         \<and> sm = (validate_and_enqueue wh_env st1 [] r1')\<lparr>current_dwh_table_name := ''concept_dimension''\<rparr>
         \<and> rtranclp (run_step wh_env) st1 sm
         \<and> translate_heb_words wh_env sm ?r2 = (st2, r2')
         \<and> count_list (translate_calls st2) heb_pain = 1
         \<and> map_of r2' ''name_char'' = Some (VStr (ustr ''pain''))
         \<and> map_of r1' ''tval_char'' = Some (VStr (ustr ''pain''))"
    by blast
  with heb in1 in2 d1 d2 none show ?thesis by (simp only: simp_thms)
qed

section \<open>Encounter registrar\<close>

lemma series_max_plus_one_plain:
  "series_max_plus_one vs = Inr n \<Longrightarrow> \<not> is_hebrew_val n"
  by (auto simp: series_max_plus_one_def split: option.splits list.splits)

lemma add_encounter_num_new:
  assumes "map_of mc ''start_date'' = Some (VDateTime d s)"
    and "map_of (loaded_encounters E st) (VDate d) = None"
    and "add_encounter_num E st mc = Inr (st1, mc1)"
  shows "\<exists>n. series_max_plus_one (map snd (loaded_encounters E st)) = Inr n
           \<and> mc1 = dict_set ''encounter_num'' n mc
           \<and> enqueued st1 ''encounters'' =
               enqueued st ''encounters'' @
               [fill_missing (get_columns E ''encounters'')
                  [(''date'', VDate d), (''encounter_num'', n)]]
           \<and> encounters st1 = Some (loaded_encounters E st @ [(VDate d, n)])"
  using assms
  by (auto simp: add_encounter_num_def Let_def enqueued_add_row split: sum.splits)

lemma map_of_observation_row:
  "k \<noteq> target_column r \<Longrightarrow> k \<noteq> ''concept_cd'' \<Longrightarrow> k \<noteq> ''modifier_cd'' \<Longrightarrow>
   k \<noteq> ''valtype_cd'' \<Longrightarrow> map_of (observation_row mc r v) k = map_of mc k"
  by (simp add: observation_row_def Let_def map_of_dict_set)

lemma distinct_observation_row:
  "distinct (map fst mc) \<Longrightarrow> distinct (map fst (observation_row mc r v))"
  by (simp add: observation_row_def Let_def distinct_dict_set)

lemma translate_heb_words_plain_value:
  assumes "distinct (map fst r)" "map_of r k = Some v" "\<not> is_hebrew_val v"
  shows "map_of (snd (translate_heb_words E st r)) k = Some v"
proof -
  from assms(2) have "(k, v) \<in> set r" by (rule map_of_SomeD)
  from translate_items_plain_value [OF assms(1) this assms(3)] show ?thesis
    by (simp add: translate_heb_words_def)
qed

lemma process_rule_encounter:
  assumes cur: "current_dwh_table_name st = ''observation_fact''"
    and keys: "distinct (map fst mc)"
    and enc: "map_of mc ''encounter_num'' = Some n" and plain: "\<not> is_hebrew_val n"
    and tgt: "target_column r \<noteq> ''encounter_num''"
    and run: "process_row_by_observation_fact_rules E st mc org_row r = Inr st'"
  shows "\<exists>rows. enqueued st' ''observation_fact'' = enqueued st ''observation_fact'' @ rows
           \<and> (\<forall>row\<in>set rows. map_of row ''encounter_num'' = Some n)"
    and "enqueued st' ''encounters'' = enqueued st ''encounters''"
    and "current_dwh_table_name st' = ''observation_fact''"
proof -
  have "(\<exists>rows. enqueued st' ''observation_fact'' = enqueued st ''observation_fact'' @ rows
           \<and> (\<forall>row\<in>set rows. map_of row ''encounter_num'' = Some n))
        \<and> enqueued st' ''encounters'' = enqueued st ''encounters''"
    using run
  proof (cases rule: process_rule_cases)
    case (null v)
    then show ?thesis by (simp add: enqueued_handle_exception)
  next
    case (val v)
    let ?T = "translate_heb_words E st (observation_row mc r v)"
    have "map_of (observation_row mc r v) ''encounter_num'' = Some n"
      using tgt enc by (simp add: map_of_observation_row)
    then have row: "map_of (snd ?T) ''encounter_num'' = Some n"
      using distinct_observation_row [OF keys] plain
      by (intro translate_heb_words_plain_value)
    have filled: "map_of (fill_missing cols (snd ?T)) ''encounter_num'' = Some n" for cols
      by (simp add: map_of_fill_missing row)
    have c: "current_dwh_table_name (fst ?T) = ''observation_fact''" using cur by simp
    show ?thesis
    proof (cases "validate_row E (fst ?T) (snd ?T)")
      case (Inr u)
      with val(3) c filled show ?thesis
        by (simp add: enqueued_validate_and_enqueue enqueued_translate_heb_words)
    next
      case (Inl e)
      with val(3) c show ?thesis
        by (simp add: enqueued_validate_and_enqueue enqueued_translate_heb_words)
    qed
  qed
  then show "\<exists>rows. enqueued st' ''observation_fact'' = enqueued st ''observation_fact'' @ rows
           \<and> (\<forall>row\<in>set rows. map_of row ''encounter_num'' = Some n)"
    and "enqueued st' ''encounters'' = enqueued st ''encounters''"
    by blast+
  show "current_dwh_table_name st' = ''observation_fact''"
    using process_rule_table [OF run] cur by simp
qed

lemma process_rules_encounter:
  "current_dwh_table_name st = ''observation_fact'' \<Longrightarrow> distinct (map fst mc) \<Longrightarrow>
   map_of mc ''encounter_num'' = Some n \<Longrightarrow> \<not> is_hebrew_val n \<Longrightarrow>
   \<forall>r\<in>set rs. target_column r \<noteq> ''encounter_num'' \<Longrightarrow>
   process_rules E st mc org_row rs = Inr st' \<Longrightarrow>
   (\<exists>rows. enqueued st' ''observation_fact'' = enqueued st ''observation_fact'' @ rows
           \<and> (\<forall>row\<in>set rows. map_of row ''encounter_num'' = Some n))
   \<and> enqueued st' ''encounters'' = enqueued st ''encounters''"
proof (induction rs arbitrary: st)
  case Nil
  then show ?case by simp
next
  case (Cons r rs)
  from Cons.prems(6) obtain st1 where
    one: "process_row_by_observation_fact_rules E st mc org_row r = Inr st1"
    and rest: "process_rules E st1 mc org_row rs = Inr st'"
    by (auto split: sum.splits)
  from Cons.prems(5) have tgt: "target_column r \<noteq> ''encounter_num''"
    and tgts: "\<forall>r\<in>set rs. target_column r \<noteq> ''encounter_num''" by simp_all
  note step = process_rule_encounter [OF Cons.prems(1,2,3,4) tgt one]
  from step(1) obtain rows1 where
    r1: "enqueued st1 ''observation_fact'' = enqueued st ''observation_fact'' @ rows1"
    and n1: "\<forall>row\<in>set rows1. map_of row ''encounter_num'' = Some n" by blast
  from Cons.IH [OF step(3) Cons.prems(2,3,4) tgts rest] obtain rows2 where
    r2: "enqueued st' ''observation_fact'' = enqueued st1 ''observation_fact'' @ rows2"
    and n2: "\<forall>row\<in>set rows2. map_of row ''encounter_num'' = Some n"
    and e2: "enqueued st' ''encounters'' = enqueued st1 ''encounters''" by blast
  have "enqueued st' ''observation_fact'' = enqueued st ''observation_fact'' @ (rows1 @ rows2)"
    using r1 r2 by simp
  moreover have "\<forall>row\<in>set (rows1 @ rows2). map_of row ''encounter_num'' = Some n"
    using n1 n2 by auto
  ultimately show ?case using e2 step(2) by (intro conjI exI [of _ "rows1 @ rows2"]) simp_all
qed

text \<open>
  A fan-out rule that maps the source column \<open>visit_no\<close> to the target column
  \<open>encounter_num\<close>: the encounter registrar assigns 2, the row of the weight rule keeps
  it, and the row of the \<open>visit_no\<close> rule carries the source value 5 instead.
\<close>

theorem rule_overwrites_encounter_counterexample:
  "observation_fact_process wh_env wh_state base_cols
     [(''weight'', VInt 70), (''visit_no'', VInt 5)] [weight_rule, visit_no_rule]
   = Inr visit_no_outcome
   \<and> map (\<lambda>row. map_of row ''encounter_num'') (enqueued visit_no_outcome ''observation_fact'')
     = [Some (VInt 2), Some (VInt 5)]"
  by (simp add: run_defs rule_defs wh_defs visit_no_rule_def visit_no_outcome_def
        enqueued_def written_def queue_of_def)

text \<open>
  C10, as the code has it. For a source row routed to \<open>observation_fact\<close> whose start
  date is not in the encounter table, the encounter id is computed from the table as it
  stands before any rule is evaluated; exactly one row is enqueued for the encounters
  table, whatever the rules do afterwards, and every \<open>observation_fact\<close> row enqueued
  for the source row carries that id, provided no evaluated rule has \<open>encounter_num\<close>
  as its target column.
\<close>

theorem encounter_assigned_before_fan_out:
  assumes cur: "current_dwh_table_name st = ''observation_fact''"
    and keys: "distinct (map fst mc)"
    and date: "map_of mc ''start_date'' = Some (VDateTime d s)"
    and new: "map_of (loaded_encounters E st) (VDate d) = None"
    and tgt: "\<forall>r\<in>set cat. \<not> isna (modifier_cd r) \<longrightarrow> target_column r \<noteq> ''encounter_num''"
    and run: "observation_fact_process E st mc org_row cat = Inr st'"
  shows "\<exists>n rows.
           series_max_plus_one (map snd (loaded_encounters E st)) = Inr n
         \<and> enqueued st' ''encounters'' =
             enqueued st ''encounters'' @
             [fill_missing (get_columns E ''encounters'')
                [(''date'', VDate d), (''encounter_num'', n)]]
         \<and> enqueued st' ''observation_fact'' = enqueued st ''observation_fact'' @ rows
         \<and> (\<forall>row\<in>set rows. map_of row ''encounter_num'' = Some n)"
proof -
  from run obtain st1 mc1 where
    enc: "add_encounter_num E st mc = Inr (st1, mc1)"
    and rules: "process_rules E st1 mc1 org_row (no_modifier_rows cat @ modifier_rows cat) = Inr st'"
    by (auto simp: observation_fact_process_def process_rules_append split: sum.splits)
  from add_encounter_num_new [OF date new enc] obtain n where
    n: "series_max_plus_one (map snd (loaded_encounters E st)) = Inr n"
    and mc1: "mc1 = dict_set ''encounter_num'' n mc"
    and e1: "enqueued st1 ''encounters'' =
               enqueued st ''encounters'' @
               [fill_missing (get_columns E ''encounters'')
                  [(''date'', VDate d), (''encounter_num'', n)]]"
    by blast
  have cur1: "current_dwh_table_name st1 = ''observation_fact''"
    using add_encounter_num_table [OF enc] cur by simp
  have keys1: "distinct (map fst mc1)" unfolding mc1 using keys by (rule distinct_dict_set)
  have val1: "map_of mc1 ''encounter_num'' = Some n" by (simp add: mc1 map_of_dict_set)
  have plain: "\<not> is_hebrew_val n" using n by (rule series_max_plus_one_plain)
  have tgts: "\<forall>r\<in>set (no_modifier_rows cat @ modifier_rows cat). target_column r \<noteq> ''encounter_num''"
    using tgt by (auto simp: no_modifier_rows_def modifier_rows_def no_modifier_marker_def)
  from process_rules_encounter [OF cur1 keys1 val1 plain tgts rules] obtain rows where
    r: "enqueued st' ''observation_fact'' = enqueued st1 ''observation_fact'' @ rows"
    and rn: "\<forall>row\<in>set rows. map_of row ''encounter_num'' = Some n"
    and e2: "enqueued st' ''encounters'' = enqueued st1 ''encounters''"
    by blast
  have o1: "enqueued st1 ''observation_fact'' = enqueued st ''observation_fact''"
    using enc by (rule enqueued_add_encounter_num) simp
  show ?thesis
    using n e1 e2 r rn o1 by (intro exI [of _ n] exI [of _ rows]) simp
qed

theorem encounter_assigned_before_fan_out_witness:
  "current_dwh_table_name wh_state = ''observation_fact''
   \<and> distinct (map fst base_cols)
   \<and> map_of base_cols ''start_date'' = Some (VDateTime 19723 3600)
   \<and> map_of (loaded_encounters wh_env wh_state) (VDate 19723) = None
   \<and> (\<exists>st'. observation_fact_process wh_env wh_state base_cols
               [(''height'', VNone), (''weight'', VInt 70)] [height_rule, weight_rule] = Inr st'
           \<and> enqueued st' ''encounters'' = [[(''date'', VDate 19723), (''encounter_num'', VInt 2)]])"
proof -
  let ?org = "[(''height'', VNone), (''weight'', VInt 70)]"
  let ?cat = "[height_rule, weight_rule]"
  have cur: "current_dwh_table_name wh_state = ''observation_fact''"
    by (simp add: wh_state_def)
  have keys: "distinct (map fst base_cols)" by (simp add: base_cols_def)
  have date: "map_of base_cols ''start_date'' = Some (VDateTime 19723 3600)"
    by (simp add: base_cols_def)
  have new: "map_of (loaded_encounters wh_env wh_state) (VDate 19723) = None"
    by (simp add: loaded_encounters_def wh_state_def wh_env_def)
  have tgt: "\<forall>r\<in>set ?cat. \<not> isna (modifier_cd r) \<longrightarrow> target_column r \<noteq> ''encounter_num''"
    by (simp add: height_rule_def weight_rule_def rule_def)
  have "\<exists>st'. observation_fact_process wh_env wh_state base_cols ?org ?cat = Inr st'"
    by (simp add: run_defs rule_defs wh_defs)
  then obtain st' where run: "observation_fact_process wh_env wh_state base_cols ?org ?cat = Inr st'" ..
  have "enqueued st' ''encounters'' = [[(''date'', VDate 19723), (''encounter_num'', VInt 2)]]"
    using encounter_assigned_before_fan_out [OF cur keys date new tgt run]
    by (auto simp: series_max_plus_one_def loaded_encounters_def wh_state_def wh_env_def
          enqueued_def written_def queue_of_def get_columns_def wh_columns_def col_def has_key_def)
  with cur keys date new run show ?thesis by blast
qed

text \<open>
  C4. On an encounter table with no row, \<^verbatim>\<open>max()\<close> of the id column is NaN and so
  is the id assigned to the first date, where the registrar is meant to start at 1. The
  entry is appended to the in-memory table and to the encounters queue, and a second
  request for the date returns the same value and enqueues nothing.
\<close>

theorem first_encounter_on_empty_table:
  "add_encounter_num fresh_env wh_state base_cols =
     Inr (wh_state\<lparr>encounters := Some [(VDate 19723, VNaN)],
            batch_que := [(''encounters'', [[(''date'', VDate 19723), (''encounter_num'', VNaN)]])]\<rparr>,
          [(''patient_num'', VInt 7), (''start_date'', VDateTime 19723 3600), (''encounter_num'', VNaN)])
   \<and> add_encounter_num fresh_env
        (wh_state\<lparr>encounters := Some [(VDate 19723, VNaN)],
            batch_que := [(''encounters'', [[(''date'', VDate 19723), (''encounter_num'', VNaN)]])]\<rparr>)
        base_cols =
     Inr (wh_state\<lparr>encounters := Some [(VDate 19723, VNaN)],
            batch_que := [(''encounters'', [[(''date'', VDate 19723), (''encounter_num'', VNaN)]])]\<rparr>,
          [(''patient_num'', VInt 7), (''start_date'', VDateTime 19723 3600), (''encounter_num'', VNaN)])"
  by (simp add: add_encounter_num_def loaded_encounters_def series_max_plus_one_def
        add_row_to_batch_def get_columns_def has_key_def que_limit_def fresh_env_def wh_defs)

text \<open>Asking again for a date that was just registered changes nothing.\<close>

lemma add_encounter_num_again:
  assumes "add_encounter_num E st mc = Inr (st1, mc1)"
  shows "add_encounter_num E st1 mc = Inr (st1, mc1)"
proof -
  from assms obtain sd d where sd: "map_of mc ''start_date'' = Some sd" and d: "date_of sd = Some d"
    by (auto simp: add_encounter_num_def Let_def split: option.splits)
  let ?encs = "loaded_encounters E st"
  show ?thesis
  proof (cases "map_of ?encs (VDate d)")
    case (Some n)
    with assms sd d have "st1 = st\<lparr>encounters := Some ?encs\<rparr>"
      and "mc1 = dict_set ''encounter_num'' n mc"
      by (auto simp: add_encounter_num_def Let_def)
    with Some sd d show ?thesis
      by (simp add: add_encounter_num_def Let_def loaded_encounters_def)
  next
    case None
    with assms sd d obtain n where
      "st1 = (add_row_to_batch E (st\<lparr>encounters := Some ?encs\<rparr>)
                [(''date'', VDate d), (''encounter_num'', n)] ''encounters'')
             \<lparr>encounters := Some (?encs @ [(VDate d, n)])\<rparr>"
      and "mc1 = dict_set ''encounter_num'' n mc"
      by (auto simp: add_encounter_num_def Let_def split: sum.splits)
    with None sd d show ?thesis
      by (simp add: add_encounter_num_def Let_def loaded_encounters_def map_add_def)
  qed
qed

section \<open>Batch writer: row shape and flushing\<close>

lemma rows_full_run:
  assumes "rows_full E st" and "process_org_tables_into_dwh E cat st tabs = Inr st'"
  shows "rows_full E st'"
proof -
  from assms(2) obtain st1 where run: "process_org_tables E cat st tabs = Inr st1"
    and st': "st' = save_all_rows_in_que st1"
    by (auto simp: process_org_tables_into_dwh_def split: sum.splits)
  from inv_process_org_tables [OF batch_inv_rows_full assms(1) run] have "rows_full E st1" .
  then show ?thesis unfolding st' by (rule rows_full_save_all)
qed

lemma queues_bounded_run:
  "queues_bounded st \<Longrightarrow> process_org_tables E cat st tabs = Inr st' \<Longrightarrow> queues_bounded st'"
  using inv_process_org_tables [OF batch_inv_queues_bounded] by blast

text \<open>
  A row with a key that is not a column of its table: the batch writer adds the missing
  columns and removes nothing, so the row is written with the extra key.
\<close>

theorem extra_key_kept_counterexample:
  "saved (save_all_rows_in_que
     (add_row_to_batch wh_env wh_state
        [(''date'', VDate 19723), (''encounter_num'', VInt 2), (''visit_type'', VInt 1)]
        ''encounters''))
   = [(''encounters'',
       [[(''date'', VDate 19723), (''encounter_num'', VInt 2), (''visit_type'', VInt 1)]])]
   \<and> get_columns wh_env ''encounters'' = [''date'', ''encounter_num'']"
  by (simp add: save_all_rows_in_que_def add_row_to_batch_def get_columns_def has_key_def
        que_limit_def wh_env_def wh_columns_def col_def wh_state_def)

text \<open>
  C6, as the code has it. Along a whole run, every row in a queue and every row handed to
  the storage write call has every column of its target table. The batch writer enqueues
  the row it is given with the missing columns added as null: a key the row already has
  keeps its value, whether or not it is a column of the table.
\<close>

theorem rows_keep_all_columns:
  assumes "rows_full E st" and "process_org_tables_into_dwh E cat st tabs = Inr st'"
  shows "rows_full E st'
       \<and> (\<forall>s r t. enqueued (add_row_to_batch E s r t) t =
                    enqueued s t @ [fill_missing (get_columns E t) r])
       \<and> (\<forall>t r k. map_of (fill_missing (get_columns E t) r) k =
            (case map_of r k of
               Some v \<Rightarrow> Some v
             | None \<Rightarrow> if k \<in> set (get_columns E t) then Some VNone else None))"
  using rows_full_run [OF assms] by (simp add: enqueued_add_row map_of_fill_missing)

theorem rows_keep_all_columns_witness:
  "rows_full wh_env wh_state
   \<and> (\<exists>st'. process_org_tables_into_dwh wh_env [patient_rule, date_rule, weight_rule] wh_state
               [(''Visits'', [[(''patient_id'', VInt 7), (''Entry_Date'', VDateTime 19723 3600),
                               (''weight'', VInt 70)]])] = Inr st'
           \<and> rows_full wh_env st')"
proof -
  let ?tabs = "[(''Visits'', [[(''patient_id'', VInt 7), (''Entry_Date'', VDateTime 19723 3600),
                               (''weight'', VInt 70)]])]"
  let ?cat = "[patient_rule, date_rule, weight_rule]"
  have full: "rows_full wh_env wh_state"
    by (simp add: rows_full_def wh_state_def)
  have "\<exists>st'. process_org_tables_into_dwh wh_env ?cat wh_state ?tabs = Inr st'"
    by (simp add: process_org_tables_into_dwh_def run_defs rule_defs wh_defs)
  then obtain st' where run: "process_org_tables_into_dwh wh_env ?cat wh_state ?tabs = Inr st'" ..
  from rows_keep_all_columns [OF full run] have "rows_full wh_env st'" by blast
  with full run show ?thesis by blast
qed

text \<open>
  C5. One row is enqueued for the dictionary table and the run ends:
  \<^verbatim>\<open>save_all_rows_in_que\<close> writes the queue to storage and leaves it as it was, where
  the flush on reaching the threshold resets the queue it has written.
\<close>

theorem end_of_run_flush_keeps_queue:
  "save_all_rows_in_que
     (add_row_to_batch wh_env wh_state
        [(''he'', VStr heb_pain), (''en'', VStr (ustr ''pain''))] ''dictionary'')
   = wh_state\<lparr>batch_que := [(''dictionary'', [[(''he'', VStr heb_pain), (''en'', VStr (ustr ''pain''))]])],
             saved := [(''dictionary'', [[(''he'', VStr heb_pain), (''en'', VStr (ustr ''pain''))]])]\<rparr>"
  by (simp add: save_all_rows_in_que_def add_row_to_batch_def get_columns_def has_key_def
        que_limit_def wh_env_def wh_columns_def col_def wh_state_def)

text \<open>
  The other half of the flush invariant holds: after an enqueue the table's queue is
  below the threshold and the other queues are untouched, along a whole run every queue
  stays below it, and the end-of-run flush writes every non-empty queue.
\<close>

lemma queue_below_limit_after_enqueue:
  "length (queue_of (add_row_to_batch E st r t) t) < que_limit
   \<and> (\<forall>t'. t' \<noteq> t \<longrightarrow> queue_of (add_row_to_batch E st r t) t' = queue_of st t')"
  by (simp add: queue_of_add_row que_limit_def)

lemma end_of_run_flush_writes_queues:
  "saved (save_all_rows_in_que st) = saved st @ filter (\<lambda>tq. snd tq \<noteq> []) (batch_que st)
   \<and> batch_que (save_all_rows_in_que st) = batch_que st"
  by (simp add: save_all_rows_in_que_def)

end
